theory Spec2Isabelle
  imports Main "HOL-Library.Word" "HOL-Library.List_Lexorder" "HOL-Library.Product_Lexorder"
begin

unbundle bit_operations_syntax

section \<open>Byte strings and timestamps\<close>

text \<open>
  Go's \<^verbatim>\<open>[]byte\<close> is a list of 8-bit words and \<^verbatim>\<open>uint64\<close> a 64-bit word, so that
  \<open>+\<close> wraps around as it does in Go.  \<^verbatim>\<open>bytes.Compare\<close> is the lexicographic order
  on byte lists (a proper prefix is smaller), which is the order of \<open>List_Lexorder\<close>.
\<close>

type_synonym byte = "8 word"
type_synonym bytes = "byte list"
type_synonym u64 = "64 word"

section \<open>MVCC key encoding (mvcc\_leveldb.go, mvccEncode and mvccDecode)\<close>

text \<open>
  Modelled from the spec: the package \<^verbatim>\<open>util/codec\<close> (\<^verbatim>\<open>EncodeBytes\<close>, \<^verbatim>\<open>DecodeBytes\<close>,
  \<^verbatim>\<open>EncodeUintDesc\<close>, \<^verbatim>\<open>DecodeUintDesc\<close>) is not among the sources.  The spec gives
  the MVCC-encoded key as \<^verbatim>\<open>encode_bytes_asc(K) || encode_u64_desc(ver)\<close> with the version
  stored bit-complemented (\<^verbatim>\<open>!version\<close>).  The ascending byte encoding is the
  memcomparable format: the key is cut into groups of 8 bytes, each followed by a marker
  byte; a full group that is followed by more data has marker \<open>0xFF\<close>, the last group is
  padded with zero bytes and its marker is \<open>0xFF\<close> minus the number of pad bytes.  The
  descending encoding of a version is the big-endian 8 bytes of its complement.
\<close>

datatype decode_error =
    ErrInsufficientBytes
  | ErrInvalidMarker
  | ErrInvalidPadding
  | ErrInvalidEncodedKey

definition encGroupSize :: nat where "encGroupSize = 8"
definition encMarker :: byte where "encMarker = 0xFF"
definition encPad :: byte where "encPad = 0x0"

function encodeGroups :: "bytes \<Rightarrow> bytes" where
  "encodeGroups data =
     (if length data \<ge> encGroupSize
      then take encGroupSize data @ [encMarker] @ encodeGroups (drop encGroupSize data)
      else (let padCount = encGroupSize - length data
            in data @ replicate padCount encPad @ [encMarker - of_nat padCount]))"
  by pat_completeness auto
termination
  by (relation "measure length") (auto simp: encGroupSize_def)

definition EncodeBytes :: "bytes \<Rightarrow> bytes \<Rightarrow> bytes" where
  "EncodeBytes b data = b @ encodeGroups data"

function decodeGroups :: "bytes \<Rightarrow> decode_error + (bytes \<times> bytes)" where
  "decodeGroups b =
     (if length b < encGroupSize + 1 then Inl ErrInsufficientBytes
      else
        (let group = take encGroupSize b;
             marker = b ! encGroupSize;
             padCount = unat (encMarker - marker)
         in if padCount > encGroupSize then Inl ErrInvalidMarker
            else
              (let realGroupSize = encGroupSize - padCount;
                   b' = drop (encGroupSize + 1) b
               in if padCount \<noteq> 0
                  then (if list_all (\<lambda>v. v = encPad) (drop realGroupSize group)
                        then Inr (b', take realGroupSize group)
                        else Inl ErrInvalidPadding)
                  else (case decodeGroups b' of
                          Inl err \<Rightarrow> Inl err
                        | Inr (rest, buf) \<Rightarrow> Inr (rest, group @ buf)))))"
  by pat_completeness auto
termination
  by (relation "measure length") (auto simp: encGroupSize_def)

definition DecodeBytes :: "bytes \<Rightarrow> decode_error + (bytes \<times> bytes)" where
  "DecodeBytes b = decodeGroups b"

declare encodeGroups.simps [simp del]
declare decodeGroups.simps [simp del]

definition PutUint64 :: "u64 \<Rightarrow> bytes" where
  "PutUint64 v = map (\<lambda>i. ucast (drop_bit (8 * i) v)) [7, 6, 5, 4, 3, 2, 1, 0]"

definition Uint64 :: "bytes \<Rightarrow> u64" where
  "Uint64 b = foldl (\<lambda>acc x. push_bit 8 acc OR ucast x) 0 (take 8 b)"

definition EncodeUintDesc :: "bytes \<Rightarrow> u64 \<Rightarrow> bytes" where
  "EncodeUintDesc b v = b @ PutUint64 (NOT v)"

definition DecodeUintDesc :: "bytes \<Rightarrow> decode_error + (bytes \<times> u64)" where
  "DecodeUintDesc b =
     (if length b < 8 then Inl ErrInsufficientBytes
      else Inr (drop 8 b, NOT (Uint64 b)))"

text \<open>\<^verbatim>\<open>mvccEncode\<close> and \<^verbatim>\<open>mvccDecode\<close>, as in the source.\<close>

definition mvccEncode :: "bytes \<Rightarrow> u64 \<Rightarrow> bytes" where
  "mvccEncode key ver = (let b = EncodeBytes [] key in EncodeUintDesc b ver)"

definition mvccDecode :: "bytes \<Rightarrow> decode_error + (bytes \<times> u64)" where
  "mvccDecode encodedKey =
     (case DecodeBytes encodedKey of
        Inl err \<Rightarrow> Inl err
      | Inr (remainBytes, key) \<Rightarrow>
          if length remainBytes = 0 then Inr (key, 0)
          else (case DecodeUintDesc remainBytes of
                  Inl err \<Rightarrow> Inl err
                | Inr (remainBytes', ver) \<Rightarrow>
                    if length remainBytes' \<noteq> 0 then Inl ErrInvalidEncodedKey
                    else Inr (key, ver)))"



subsection \<open>Round trip\<close>

lemma byte_step:
  "push_bit 8 (drop_bit (k + 8) (w::u64)) OR ucast (ucast (drop_bit k w) :: byte) = drop_bit k w"
  by (rule bit_word_eqI) (auto simp: bit_simps add.commute)

lemma Uint64_PutUint64: "Uint64 (PutUint64 v) = v"
proof -
  have b0: "(ucast (ucast (drop_bit 56 v) :: byte) :: u64) = drop_bit 56 v"
    by (rule bit_word_eqI) (auto simp: bit_simps dest: bit_imp_le_length)
  show ?thesis
    unfolding Uint64_def PutUint64_def
    using byte_step[of 48 v] byte_step[of 40 v] byte_step[of 32 v] byte_step[of 24 v]
          byte_step[of 16 v] byte_step[of 8 v] byte_step[of 0 v]
    by (simp add: b0)
qed




lemma decodeGroups_encodeGroups:
  "decodeGroups (encodeGroups data @ rest) = Inr (rest, data)"
proof (induction data rule: encodeGroups.induct)
  case (1 data)
  show ?case
  proof (cases "length data \<ge> encGroupSize")
    case True
    have e: "encodeGroups data = take 8 data @ [0xFF] @ encodeGroups (drop 8 data)"
      using True by (subst encodeGroups.simps) (simp add: encGroupSize_def encMarker_def)
    have ih: "decodeGroups (encodeGroups (drop 8 data) @ rest) = Inr (rest, drop 8 data)"
      using "1.IH"[OF True] by (simp add: encGroupSize_def)
    have l: "length (take 8 data) = 8" using True by (simp add: encGroupSize_def)
    show ?thesis
      apply (subst decodeGroups.simps)
      using l apply (simp add: e encGroupSize_def encMarker_def nth_append Let_def ih)
      done
  next
    case False
    then have lt: "length data < 8" by (simp add: encGroupSize_def)
    have e: "encodeGroups data = data @ replicate (8 - length data) 0 @ [0xFF - of_nat (8 - length data)]"
      using False by (subst encodeGroups.simps) (simp add: encGroupSize_def encMarker_def encPad_def Let_def)
    have u: "unat (of_nat (8 - length data) :: byte) = 8 - length data"
      using lt by (simp add: unat_of_nat del: of_nat_diff)
    show ?thesis
      apply (subst decodeGroups.simps)
      using lt u apply (simp add: e encGroupSize_def encMarker_def encPad_def nth_append Let_def list_all_iff)
      done
  qed
qed


lemma list_all_pad_replicate:
  "list_all (\<lambda>v. v = c) xs \<Longrightarrow> xs = replicate (length xs) c"
  by (induction xs) auto

lemma split_group:
  assumes "9 \<le> length b"
  shows "b = take 8 b @ [b ! 8] @ drop 9 b"
proof -
  have "8 < length b" using assms by simp
  from Cons_nth_drop_Suc[OF this] have "drop 8 b = b ! 8 # drop 9 b"
    by simp
  then show ?thesis
    by (metis append_Cons append_Nil append_take_drop_id)
qed

lemma decodeGroups_sound:
  "decodeGroups b = Inr (rest, k) \<Longrightarrow> b = encodeGroups k @ rest"
proof (induction b arbitrary: rest k rule: decodeGroups.induct)
  case (1 b)
  note dec = "1.prems"
  have len: "9 \<le> length b"
    using dec by (subst (asm) decodeGroups.simps) (simp add: encGroupSize_def split: if_splits)
  define pc where "pc = unat (0xFF - b ! 8)"
  have pc8: "pc \<le> 8"
    using dec len unfolding pc_def
    by (subst (asm) decodeGroups.simps)
       (simp add: encGroupSize_def encMarker_def Let_def split: if_splits)
  show ?case
  proof (cases "pc = 0")
    case True
    then have m: "b ! 8 = 0xFF"
      unfolding pc_def by (simp add: unat_eq_0)
    obtain buf where r: "decodeGroups (drop 9 b) = Inr (rest, buf)" and k: "k = take 8 b @ buf"
      using dec len True unfolding pc_def
      by (subst (asm) decodeGroups.simps)
         (auto simp: encGroupSize_def encMarker_def Let_def split: if_splits sum.splits)
    have ih: "drop 9 b = encodeGroups buf @ rest"
      using "1.IH"[of "take encGroupSize b" "b ! encGroupSize" "unat (encMarker - b ! encGroupSize)"
                      "encGroupSize - unat (encMarker - b ! encGroupSize)" "drop (encGroupSize + 1) b" rest buf]
            len True r
      by (simp add: encGroupSize_def encMarker_def pc_def)
    have e: "encodeGroups k = take 8 b @ [0xFF] @ encodeGroups buf"
      using len unfolding k
      by (subst encodeGroups.simps) (simp add: encGroupSize_def encMarker_def)
    show ?thesis
      using split_group[OF len] by (simp add: e m ih)
  next
    case False
    have k: "k = take (8 - pc) (take 8 b)" and rest: "rest = drop 9 b"
      and pad: "list_all (\<lambda>v. v = 0) (drop (8 - pc) (take 8 b))"
      using dec len False pc8 unfolding pc_def
      by (subst (asm) decodeGroups.simps;
          simp add: encGroupSize_def encMarker_def encPad_def Let_def split: if_splits)+
    have lk: "length k = 8 - pc" using len k by simp
    have lp: "length (drop (8 - pc) (take 8 b)) = pc" using len pc8 by simp
    have p: "drop (8 - pc) (take 8 b) = replicate pc 0"
      using list_all_pad_replicate[OF pad] lp by simp
    have "take 8 b = take (8 - pc) (take 8 b) @ drop (8 - pc) (take 8 b)"
      by (rule append_take_drop_id[symmetric])
    then have t: "take 8 b = k @ replicate pc 0"
      by (simp only: k[symmetric] p)
    have mk: "(0xFF::byte) - of_nat pc = b ! 8"
      unfolding pc_def by simp
    have nle: "\<not> 8 \<le> length k" using lk False by arith
    have pcl: "8 - length k = pc" using lk pc8 by arith
    have e: "encodeGroups k = k @ replicate pc 0 @ [b ! 8]"
      using nle
      by (subst encodeGroups.simps)
         (simp add: encGroupSize_def encMarker_def encPad_def Let_def pcl mk del: of_nat_diff)
    show ?thesis
      using split_group[OF len] by (simp add: e t rest)
  qed
qed


lemma length_PutUint64: "length (PutUint64 v) = 8"
  by (simp add: PutUint64_def)

lemma DecodeUintDesc_EncodeUintDesc:
  "DecodeUintDesc (EncodeUintDesc [] v) = Inr ([], v)"
  by (simp add: DecodeUintDesc_def EncodeUintDesc_def length_PutUint64 Uint64_PutUint64)

lemma length8_cases:
  assumes "length (b::'a list) = 8"
  obtains b7 b6 b5 b4 b3 b2 b1 b0 where "b = [b7, b6, b5, b4, b3, b2, b1, b0]"
proof -
  from assms obtain b7 r7 where 7: "b = b7 # r7" "length r7 = 7" by (cases b) auto
  then obtain b6 r6 where 6: "r7 = b6 # r6" "length r6 = 6" by (cases r7) auto
  then obtain b5 r5 where 5: "r6 = b5 # r5" "length r5 = 5" by (cases r6) auto
  then obtain b4 r4 where 4: "r5 = b4 # r4" "length r4 = 4" by (cases r5) auto
  then obtain b3 r3 where 3: "r4 = b3 # r3" "length r3 = 3" by (cases r4) auto
  then obtain b2 r2 where 2: "r3 = b2 # r2" "length r2 = 2" by (cases r3) auto
  then obtain b1 r1 where 1: "r2 = b1 # r1" "length r1 = 1" by (cases r2) auto
  then obtain b0 where 0: "r1 = [b0]" by (cases r1) auto
  show ?thesis using that 7 6 5 4 3 2 1 0 by simp
qed

lemma acc_low: "(ucast (push_bit 8 (acc::u64) OR ucast (x::byte)) :: byte) = x"
  by (rule bit_word_eqI) (auto simp: bit_simps)

lemma drop_bit_zero_bit:
  "drop_bit k (acc::u64) = 0 \<Longrightarrow> k \<le> n \<Longrightarrow> \<not> bit acc n"
proof
  assume z: "drop_bit k acc = 0" and kn: "k \<le> n" and b: "bit acc n"
  have "bit (drop_bit k acc) (n - k) = bit acc (k + (n - k))"
    by (simp add: bit_drop_bit_eq)
  with kn b have "bit (drop_bit k acc) (n - k)" by simp
  with z show False by simp
qed

lemma byte_bit_high: "8 \<le> n \<Longrightarrow> \<not> bit (x::byte) n"
  using bit_imp_le_length[of x n] by auto

lemma acc_high:
  "drop_bit 56 (acc::u64) = 0 \<Longrightarrow> drop_bit 8 (push_bit 8 acc OR ucast (x::byte)) = acc"
proof (rule bit_word_eqI)
  fix n assume z: "drop_bit 56 acc = 0" and n: "n < LENGTH(64)"
  have hi: "56 \<le> n \<Longrightarrow> \<not> bit acc n"
    using drop_bit_zero_bit[OF z] .
  have x: "\<not> bit x (8 + n)" by (rule byte_bit_high) simp
  show "bit (drop_bit 8 (push_bit 8 acc OR ucast x)) n = bit acc n"
    using hi x
    by (cases "56 \<le> n") (simp_all add: bit_drop_bit_eq bit_or_iff bit_push_bit_iff bit_ucast_iff)
qed

lemma acc_bound:
  "drop_bit k (acc::u64) = 0 \<Longrightarrow> drop_bit (k + 8) (push_bit 8 acc OR ucast (x::byte)) = 0"
proof (rule bit_word_eqI)
  fix n assume z: "drop_bit k acc = 0" and n: "n < LENGTH(64)"
  have a: "\<not> bit acc (k + n)"
    by (rule drop_bit_zero_bit[OF z]) simp
  have x: "\<not> bit x (k + 8 + n)" by (rule byte_bit_high) simp
  have e: "k + 8 + n - 8 = k + n" by simp
  show "bit (drop_bit (k + 8) (push_bit 8 acc OR ucast x)) n = bit (0::u64) n"
    using a x
    by (simp add: bit_drop_bit_eq bit_or_iff bit_push_bit_iff bit_ucast_iff e)
qed

lemma PutUint64_Uint64: "length b = 8 \<Longrightarrow> PutUint64 (Uint64 b) = b"
proof -
  assume "length b = 8"
  then obtain b7 b6 b5 b4 b3 b2 b1 b0 where b: "b = [b7, b6, b5, b4, b3, b2, b1, b0]"
    by (rule length8_cases)
  define a1 :: u64 where "a1 = push_bit 8 0 OR ucast b7"
  define a2 :: u64 where "a2 = push_bit 8 a1 OR ucast b6"
  define a3 :: u64 where "a3 = push_bit 8 a2 OR ucast b5"
  define a4 :: u64 where "a4 = push_bit 8 a3 OR ucast b4"
  define a5 :: u64 where "a5 = push_bit 8 a4 OR ucast b3"
  define a6 :: u64 where "a6 = push_bit 8 a5 OR ucast b2"
  define a7 :: u64 where "a7 = push_bit 8 a6 OR ucast b1"
  define a8 :: u64 where "a8 = push_bit 8 a7 OR ucast b0"
  have u: "Uint64 b = a8"
    unfolding b Uint64_def a8_def a7_def a6_def a5_def a4_def a3_def a2_def a1_def by simp
  have z1: "drop_bit 8 a1 = 0" using acc_bound[of 0 0 b7] by (simp add: a1_def)
  have z2: "drop_bit 16 a2 = 0" using acc_bound[OF z1, of b6] by (simp add: a2_def)
  have z3: "drop_bit 24 a3 = 0" using acc_bound[OF z2, of b5] by (simp add: a3_def)
  have z4: "drop_bit 32 a4 = 0" using acc_bound[OF z3, of b4] by (simp add: a4_def)
  have z5: "drop_bit 40 a5 = 0" using acc_bound[OF z4, of b3] by (simp add: a5_def)
  have z6: "drop_bit 48 a6 = 0" using acc_bound[OF z5, of b2] by (simp add: a6_def)
  have z7: "drop_bit 56 a7 = 0" using acc_bound[OF z6, of b1] by (simp add: a7_def)
  have w: "drop_bit 56 x = 0" if "drop_bit k x = 0" "k \<le> 56" for x :: u64 and k
  proof -
    have "drop_bit 56 x = drop_bit (56 - k) (drop_bit k x)"
      using that(2) by (simp add: drop_bit_drop_bit)
    then show ?thesis using that(1) by simp
  qed
  have d1: "drop_bit 8 a8 = a7" unfolding a8_def by (rule acc_high[OF z7])
  have d2: "drop_bit 8 a7 = a6" unfolding a7_def by (rule acc_high[OF w[OF z6]]) simp
  have d3: "drop_bit 8 a6 = a5" unfolding a6_def by (rule acc_high[OF w[OF z5]]) simp
  have d4: "drop_bit 8 a5 = a4" unfolding a5_def by (rule acc_high[OF w[OF z4]]) simp
  have d5: "drop_bit 8 a4 = a3" unfolding a4_def by (rule acc_high[OF w[OF z3]]) simp
  have d6: "drop_bit 8 a3 = a2" unfolding a3_def by (rule acc_high[OF w[OF z2]]) simp
  have d7: "drop_bit 8 a2 = a1" unfolding a2_def by (rule acc_high[OF w[OF z1]]) simp
  have e16: "drop_bit 16 a8 = a6"
  proof -
    have "drop_bit 16 a8 = drop_bit 8 (drop_bit 8 a8)" by (simp add: drop_bit_drop_bit)
    then show ?thesis by (simp only: d1 d2)
  qed
  have e24: "drop_bit 24 a8 = a5"
  proof -
    have "drop_bit 24 a8 = drop_bit 8 (drop_bit 16 a8)" by (simp add: drop_bit_drop_bit)
    then show ?thesis by (simp only: e16 d3)
  qed
  have e32: "drop_bit 32 a8 = a4"
  proof -
    have "drop_bit 32 a8 = drop_bit 8 (drop_bit 24 a8)" by (simp add: drop_bit_drop_bit)
    then show ?thesis by (simp only: e24 d4)
  qed
  have e40: "drop_bit 40 a8 = a3"
  proof -
    have "drop_bit 40 a8 = drop_bit 8 (drop_bit 32 a8)" by (simp add: drop_bit_drop_bit)
    then show ?thesis by (simp only: e32 d5)
  qed
  have e48: "drop_bit 48 a8 = a2"
  proof -
    have "drop_bit 48 a8 = drop_bit 8 (drop_bit 40 a8)" by (simp add: drop_bit_drop_bit)
    then show ?thesis by (simp only: e40 d6)
  qed
  have e56: "drop_bit 56 a8 = a1"
  proof -
    have "drop_bit 56 a8 = drop_bit 8 (drop_bit 48 a8)" by (simp add: drop_bit_drop_bit)
    then show ?thesis by (simp only: e48 d7)
  qed
  have l: "(ucast a8 :: byte) = b0" "(ucast a7 :: byte) = b1" "(ucast a6 :: byte) = b2"
    "(ucast a5 :: byte) = b3" "(ucast a4 :: byte) = b4" "(ucast a3 :: byte) = b5"
    "(ucast a2 :: byte) = b6" "(ucast a1 :: byte) = b7"
    unfolding a8_def a7_def a6_def a5_def a4_def a3_def a2_def a1_def
    by (rule acc_low)+
  show ?thesis
    unfolding u unfolding b PutUint64_def
    by (simp add: d1 e16 e24 e32 e40 e48 e56 l)
qed

lemma PutUint64_not_Nil: "PutUint64 v \<noteq> []"
  using length_PutUint64[of v] by auto


lemma mvccDecode_sound:
  assumes "mvccDecode b = Inr (k, v)"
  shows "(b = EncodeBytes [] k \<and> v = 0) \<or> b = mvccEncode k v"
proof -
  obtain remain key where d: "decodeGroups b = Inr (remain, key)"
    using assms by (cases "decodeGroups b") (auto simp: mvccDecode_def DecodeBytes_def)
  have b: "b = encodeGroups key @ remain"
    using d by (rule decodeGroups_sound)
  have r: "(if length remain = 0 then Inr (key, 0)
            else (case DecodeUintDesc remain of
                    Inl err \<Rightarrow> Inl err
                  | Inr (remainBytes', ver) \<Rightarrow>
                      if length remainBytes' \<noteq> 0 then Inl ErrInvalidEncodedKey
                      else Inr (key, ver))) = Inr (k, v)"
    using assms d by (simp add: mvccDecode_def DecodeBytes_def)
  show ?thesis
  proof (cases "remain = []")
    case True
    with r b show ?thesis
      by (simp add: EncodeBytes_def)
  next
    case False
    have ge: "\<not> length remain < 8"
    proof
      assume "length remain < 8"
      with r False show False by (simp add: DecodeUintDesc_def)
    qed
    with r False have len: "length remain = 8" and v: "v = NOT (Uint64 remain)" and k: "key = k"
      by (simp_all add: DecodeUintDesc_def split: if_splits)
    have "mvccEncode k v = encodeGroups k @ remain"
      by (simp add: mvccEncode_def EncodeBytes_def EncodeUintDesc_def v
                    PutUint64_Uint64[OF len])
    with b k show ?thesis by simp
  qed
qed

text \<open>
  C8. Encoding a user key with a version and decoding the result gives the key and the
  version back, without error.  The bare encoding of a key, with no version suffix,
  decodes as that key with version 0 (a meta key).  Decoding any byte string either
  fails, or yields a key with version 0 and the string is the bare encoding of that key,
  or yields a key and a version of which the string is the encoding.
\<close>

theorem mvccDecode_mvccEncode:
  "mvccDecode (mvccEncode k v) = Inr (k, v) \<and>
   mvccDecode (EncodeBytes [] k) = Inr (k, 0) \<and>
   ((\<exists>e. mvccDecode b = Inl e) \<or>
    (\<exists>k'. b = EncodeBytes [] k' \<and> mvccDecode b = Inr (k', 0)) \<or>
    (\<exists>k' v'. b = mvccEncode k' v' \<and> mvccDecode b = Inr (k', v')))"
proof (intro conjI)
  show "mvccDecode (mvccEncode k v) = Inr (k, v)"
    using decodeGroups_encodeGroups[of k "PutUint64 (NOT v)"]
    by (simp add: PutUint64_not_Nil mvccDecode_def mvccEncode_def DecodeBytes_def
        EncodeBytes_def EncodeUintDesc_def DecodeUintDesc_def length_PutUint64
        Uint64_PutUint64)
next
  show "mvccDecode (EncodeBytes [] k) = Inr (k, 0)"
    using decodeGroups_encodeGroups[of k "[]"]
    by (simp add: mvccDecode_def DecodeBytes_def EncodeBytes_def)
next
  show "(\<exists>e. mvccDecode b = Inl e) \<or>
    (\<exists>k'. b = EncodeBytes [] k' \<and> mvccDecode b = Inr (k', 0)) \<or>
    (\<exists>k' v'. b = mvccEncode k' v' \<and> mvccDecode b = Inr (k', v'))"
  proof (cases "mvccDecode b")
    case (Inl e)
    then show ?thesis by blast
  next
    case (Inr kv)
    obtain k' v' where kv: "kv = (k', v')" by (cases kv)
    from mvccDecode_sound[of b k' v'] Inr kv
    show ?thesis by auto
  qed
qed

section \<open>Protocol messages (kvrpcpb)\<close>

datatype Op = Op_Put | Op_Del | Op_Lock | Op_Rollback | Op_Insert | Op_PessimisticLock
  | Op_CheckNotExists

datatype Assertion = Assertion_None | Assertion_Exist | Assertion_NotExist

datatype AssertionLevel = AssertionLevel_Off | AssertionLevel_Fast | AssertionLevel_Strict

datatype IsolationLevel = IsolationLevel_SI | IsolationLevel_RC

record Mutation =
  m_Op :: Op
  m_Key :: bytes
  m_Value :: bytes
  m_Assertion :: Assertion

text \<open>\<^verbatim>\<open>PrewriteRequest\<close>; \<open>req_ResolvedLocks\<close> is \<^verbatim>\<open>req.Context.ResolvedLocks\<close>.\<close>

record PrewriteRequest =
  req_Mutations :: "Mutation list"
  req_PrimaryLock :: bytes
  req_StartVersion :: u64
  req_LockTtl :: u64
  req_IsPessimisticLock :: "bool list"
  req_ForUpdateTs :: u64
  req_TxnSize :: u64
  req_MinCommitTs :: u64
  req_MaxCommitTs :: u64
  req_AssertionLevel :: AssertionLevel
  req_UseAsyncCommit :: bool
  req_Secondaries :: "bytes list"
  req_TryOnePc :: bool
  req_ResolvedLocks :: "u64 list"

record PrewriteResponse =
  resp_Errors :: "string list"
  resp_MinCommitTs :: u64
  resp_OnePcCommitTs :: u64

section \<open>The MVCC engine (mvcc\_leveldb.go): store, iterators and decoders\<close>

datatype mvccValueType = typePut | typeDelete | typeRollback | typeLock

text \<open>
  The records \<^verbatim>\<open>mvccValue\<close> and \<^verbatim>\<open>mvccLock\<close> are declared in \<^verbatim>\<open>mvcc.go\<close>, which is not
  among the sources; their fields are taken from the places where \<^verbatim>\<open>mvcc_leveldb.go\<close>
  reads and writes them.
\<close>

record mvccValue =
  v_valueType :: mvccValueType
  v_startTS :: u64
  v_commitTS :: u64
  v_value :: bytes

record mvccLock =
  l_startTS :: u64
  l_primary :: bytes
  l_value :: bytes
  l_op :: Op
  l_ttl :: u64
  l_forUpdateTS :: u64
  l_txnSize :: u64
  l_minCommitTS :: u64

definition lockVer :: u64 where
  "lockVer = - 1"

text \<open>
  Modelled from the spec: the store is LevelDB, a sorted map from MVCC-encoded keys to
  marshalled records; LevelDB, the codec and \<^verbatim>\<open>MarshalBinary\<close>/\<^verbatim>\<open>UnmarshalBinary\<close> are not
  among the sources.  A stored key is kept decoded, as the pair of the user key and the
  version that \<^verbatim>\<open>mvccDecode\<close> returns for it, and the order of the encoded keys is the
  one the spec gives: user keys ascending, and for one user key the lock slot
  (version \<open>lockVer\<close>) first, then the versions descending.  A stored value is kept
  unmarshalled, tagged with its kind; unmarshalling a record of the other kind is an error.
\<close>

type_synonym mvccKey = "bytes \<times> u64"

datatype payload = LockRec mvccLock | ValueRec mvccValue

type_synonym entry = "mvccKey \<times> payload"

type_synonym db = "entry list"

fun mvccLess :: "mvccKey \<Rightarrow> mvccKey \<Rightarrow> bool" where
  "mvccLess (k1, v1) (k2, v2) = (k1 < k2 \<or> (k1 = k2 \<and> v2 < v1))"

text \<open>\<^verbatim>\<open>db.Put\<close> and \<^verbatim>\<open>db.Delete\<close> on the sorted map.\<close>

fun dbPut :: "mvccKey \<Rightarrow> payload \<Rightarrow> db \<Rightarrow> db" where
  "dbPut k p [] = [(k, p)]"
| "dbPut k p ((k', p') # rest) =
     (if k = k' then (k, p) # rest
      else if mvccLess k k' then (k, p) # (k', p') # rest
      else (k', p') # dbPut k p rest)"

definition dbDelete :: "mvccKey \<Rightarrow> db \<Rightarrow> db" where
  "dbDelete k d = filter (\<lambda>e. fst e \<noteq> k) d"

text \<open>A \<^verbatim>\<open>leveldb.Batch\<close>: its operations are replayed in order by \<^verbatim>\<open>db.Write\<close>.\<close>

datatype batchOp = BatchPut mvccKey payload | BatchDelete mvccKey

fun applyOp :: "db \<Rightarrow> batchOp \<Rightarrow> db" where
  "applyOp d (BatchPut k p) = dbPut k p d"
| "applyOp d (BatchDelete k) = dbDelete k d"

definition dbWrite :: "db \<Rightarrow> batchOp list \<Rightarrow> db" where
  "dbWrite d batch = foldl applyOp d batch"

text \<open>
  An iterator is the list of the entries it has not passed yet; it is valid while the
  list is not empty, its current entry is the head, and \<^verbatim>\<open>Next\<close> drops the head.
  \<^verbatim>\<open>newIterator\<close> with \<^verbatim>\<open>Range{Start: start}\<close> ranges over the entries whose key is not
  below \<open>start\<close>.
\<close>

type_synonym iterator = "entry list"

definition newIterator :: "db \<Rightarrow> mvccKey \<Rightarrow> iterator" where
  "newIterator d start = filter (\<lambda>e. \<not> mvccLess (fst e) start) d"

datatype mvcc_error =
    ErrLocked bytes mvccLock
  | ErrKeyAlreadyExist bytes
  | ErrConflict u64 u64 u64 bytes
  | ErrAssertionFailed u64 bytes Assertion u64 u64
  | ErrAlreadyRollbacked u64 bytes
  | ErrAbort string
  | ErrRetryable string
  | ErrCommitTSExpired u64 u64 bytes u64
  | ErrAlreadyCommitted u64
  | ErrTxnNotFound u64 bytes
  | ErrUnmarshal

text \<open>
  \<^verbatim>\<open>lockDecoder.Decode\<close>: the lock of \<open>expectKey\<close> if the iterator is at its lock slot
  (then the iterator moves on); the result pairs the decoded lock (\<open>None\<close> for
  \<^verbatim>\<open>ok = false\<close>) with the iterator.
\<close>

fun lockDecode :: "bytes \<Rightarrow> iterator \<Rightarrow> mvcc_error + (mvccLock option \<times> iterator)" where
  "lockDecode expectKey [] = Inr (None, [])"
| "lockDecode expectKey (((key, ver), p) # rest) =
     (if key \<noteq> expectKey then Inr (None, ((key, ver), p) # rest)
      else if ver \<noteq> lockVer then Inr (None, ((key, ver), p) # rest)
      else (case p of
              LockRec lock \<Rightarrow> Inr (Some lock, rest)
            | ValueRec v \<Rightarrow> Inl ErrUnmarshal))"

text \<open>\<^verbatim>\<open>valueDecoder.Decode\<close>: the next write record of \<open>expectKey\<close>.\<close>

fun valueDecode :: "bytes \<Rightarrow> iterator \<Rightarrow> mvcc_error + (mvccValue option \<times> iterator)" where
  "valueDecode expectKey [] = Inr (None, [])"
| "valueDecode expectKey (((key, ver), p) # rest) =
     (if key \<noteq> expectKey then Inr (None, ((key, ver), p) # rest)
      else if ver = lockVer then Inr (None, ((key, ver), p) # rest)
      else (case p of
              ValueRec v \<Rightarrow> Inr (Some v, rest)
            | LockRec lock \<Rightarrow> Inl ErrUnmarshal))"

lemma valueDecode_shorter:
  "valueDecode expectKey iter = Inr (Some v, iter') \<Longrightarrow> length iter' < length iter"
  by (cases iter) (auto split: if_splits payload.splits)

subsection \<open>Reading\<close>

text \<open>
  Modelled from the spec: \<^verbatim>\<open>mvccLock.lockErr\<close> and \<^verbatim>\<open>mvccLock.check\<close> are defined in
  \<^verbatim>\<open>mvcc.go\<close>, which is not among the sources.  \<open>lockErr\<close> is the \<open>Locked\<close> error that
  carries the key and the lock.  By the spec a lock is visible to a reader when
  \<open>lock.ts \<le> start_ts\<close> and \<open>lock.ts\<close> is not among the resolved locks; \<open>check\<close> returns
  the \<open>Locked\<close> error for a visible lock and the reader's timestamp otherwise.
\<close>

definition lockErr :: "mvccLock \<Rightarrow> bytes \<Rightarrow> mvcc_error" where
  "lockErr l key = ErrLocked key l"

definition check :: "mvccLock \<Rightarrow> u64 \<Rightarrow> bytes \<Rightarrow> u64 list \<Rightarrow> mvcc_error + u64" where
  "check l ts key resolvedLocks =
     (if l_startTS l \<le> ts \<and> l_startTS l \<notin> set resolvedLocks
      then Inl (lockErr l key) else Inr ts)"

text \<open>
  The loop of \<^verbatim>\<open>getValue\<close>.  The result \<open>None\<close> is Go's \<^verbatim>\<open>nil\<close> value (not found);
  the value of a \<open>Put\<close> record is returned as it is stored.
\<close>

function getValueLoop :: "bytes \<Rightarrow> u64 \<Rightarrow> iterator \<Rightarrow> mvcc_error + bytes option" where
  "getValueLoop key startTS iter =
     (if iter = [] then Inr None
      else (case valueDecode key iter of
              Inl err \<Rightarrow> Inl err
            | Inr (None, iter') \<Rightarrow> Inr None
            | Inr (Some value, iter') \<Rightarrow>
                if v_valueType value = typeRollback \<or> v_valueType value = typeLock
                then getValueLoop key startTS iter'
                else if v_commitTS value \<le> startTS
                then (if v_valueType value = typeDelete then Inr None
                      else Inr (Some (v_value value)))
                else getValueLoop key startTS iter'))"
  by pat_completeness auto
termination
  by (relation "measure (\<lambda>(key, startTS, iter). length iter)")
     (auto dest: valueDecode_shorter)

declare getValueLoop.simps [simp del]

definition getValue ::
  "iterator \<Rightarrow> bytes \<Rightarrow> u64 \<Rightarrow> IsolationLevel \<Rightarrow> u64 list \<Rightarrow> mvcc_error + bytes option" where
  "getValue iter key startTS isoLevel resolvedLocks =
     (case lockDecode key iter of
        Inl err \<Rightarrow> Inl err
      | Inr (lock, iter') \<Rightarrow>
          (case (case lock of
                   Some l \<Rightarrow> if isoLevel = IsolationLevel_SI
                             then check l startTS key resolvedLocks else Inr startTS
                 | None \<Rightarrow> Inr startTS) of
             Inl err \<Rightarrow> Inl err
           | Inr startTS' \<Rightarrow> getValueLoop key startTS' iter'))"

text \<open>\<^verbatim>\<open>MVCCLevelDB.getValue\<close> and \<^verbatim>\<open>MVCCLevelDB.Get\<close>.\<close>

definition mvcc_getValue ::
  "db \<Rightarrow> bytes \<Rightarrow> u64 \<Rightarrow> IsolationLevel \<Rightarrow> u64 list \<Rightarrow> mvcc_error + bytes option" where
  "mvcc_getValue d key startTS isoLevel resolvedLocks =
     (let startKey = (key, lockVer);
          iter = newIterator d startKey
      in getValue iter key startTS isoLevel resolvedLocks)"

definition Get ::
  "db \<Rightarrow> bytes \<Rightarrow> u64 \<Rightarrow> IsolationLevel \<Rightarrow> u64 list \<Rightarrow> mvcc_error + bytes option" where
  "Get d key startTS isoLevel resolvedLocks =
     mvcc_getValue d key startTS isoLevel resolvedLocks"

subsection \<open>Prewrite\<close>

text \<open>
  The loop of \<^verbatim>\<open>checkConflictValue\<close>, entered with the write record \<open>v\<close> that was
  decoded last.  \<open>gv\<close>, \<open>ne\<close> and \<open>cr\<close> are \<^verbatim>\<open>needGetVal\<close>,
  \<^verbatim>\<open>needCheckShouldNotExistForPessimisticLock\<close> and \<^verbatim>\<open>needCheckRollback\<close>, \<open>nca\<close> is
  \<^verbatim>\<open>needCheckAssertionForPrewerite\<close>, and \<open>ret\<close> is \<^verbatim>\<open>retVal\<close>.
\<close>

function checkConflictLoop ::
  "Mutation \<Rightarrow> u64 \<Rightarrow> AssertionLevel \<Rightarrow> bool \<Rightarrow> mvccValue \<Rightarrow> iterator
     \<Rightarrow> bool \<Rightarrow> bool \<Rightarrow> bool \<Rightarrow> bytes option \<Rightarrow> mvcc_error + bytes option" where
  "checkConflictLoop m startTS assertionLevel nca v iter gv ne cr ret =
     (if cr \<and> v_valueType v = typeRollback \<and> v_commitTS v = startTS
      then Inl (ErrAlreadyRollbacked startTS (m_Key m))
      else
        (let cr' = (if cr \<and> v_commitTS v < startTS then False else cr) in
         if (v_valueType v = typePut \<or> v_valueType v = typeLock) \<and> ne
         then Inl (ErrAssertionFailed startTS (m_Key m) (m_Assertion m) (v_startTS v) (v_commitTS v))
         else if (v_valueType v = typePut \<or> v_valueType v = typeLock)
                 \<and> nca \<and> m_Assertion m = Assertion_NotExist
         then Inl (ErrAssertionFailed startTS (m_Key m) (m_Assertion m) (v_startTS v) (v_commitTS v))
         else
           (let ne' = (if v_valueType v = typeDelete then False else ne);
                ret' = (if gv \<and> (v_valueType v = typeDelete \<or> v_valueType v = typePut)
                        then Some (v_value v) else ret);
                gv' = (if gv \<and> (v_valueType v = typeDelete \<or> v_valueType v = typePut)
                       then False else gv)
            in if \<not> ne' \<and> \<not> gv' \<and> \<not> cr' then Inr ret'
               else (case valueDecode (m_Key m) iter of
                       Inl err \<Rightarrow> Inl err
                     | Inr (None, iter') \<Rightarrow>
                         if m_Assertion m = Assertion_Exist \<and> assertionLevel \<noteq> AssertionLevel_Off
                         then Inl (ErrAssertionFailed startTS (m_Key m) (m_Assertion m) 0 0)
                         else Inr ret'
                     | Inr (Some v', iter') \<Rightarrow>
                         checkConflictLoop m startTS assertionLevel nca v' iter' gv' ne' cr' ret'))))"
  by pat_completeness auto
termination
  by (relation "measure (\<lambda>(m, startTS, assertionLevel, nca, v, iter, gv, ne, cr, ret). length iter)")
     (auto dest: valueDecode_shorter)

declare checkConflictLoop.simps [simp del]

definition checkConflictValue ::
  "iterator \<Rightarrow> Mutation \<Rightarrow> u64 \<Rightarrow> u64 \<Rightarrow> bool \<Rightarrow> AssertionLevel \<Rightarrow> mvcc_error + bytes option" where
  "checkConflictValue iter m forUpdateTS startTS getVal assertionLevel =
     (case valueDecode (m_Key m) iter of
        Inl err \<Rightarrow> Inl err
      | Inr (None, iter') \<Rightarrow>
          if m_Assertion m = Assertion_Exist \<and> assertionLevel \<noteq> AssertionLevel_Off
             \<and> m_Op m \<noteq> Op_PessimisticLock
          then Inl (ErrAssertionFailed startTS (m_Key m) (m_Assertion m) 0 0)
          else Inr None
      | Inr (Some v, iter') \<Rightarrow>
          if v_commitTS v > forUpdateTS
          then Inl (ErrConflict forUpdateTS (v_startTS v) (v_commitTS v) (m_Key m))
          else
            (let needGetVal = getVal;
                 needCheckShouldNotExistForPessimisticLock =
                   (m_Assertion m = Assertion_NotExist \<and> m_Op m = Op_PessimisticLock);
                 needCheckAssertionForPrewerite =
                   (m_Assertion m \<noteq> Assertion_None \<and> m_Op m \<noteq> Op_PessimisticLock
                    \<and> assertionLevel \<noteq> AssertionLevel_Off);
                 needCheckRollback = True
             in (case checkConflictLoop m startTS assertionLevel needCheckAssertionForPrewerite
                        v iter' needGetVal needCheckShouldNotExistForPessimisticLock
                        needCheckRollback None of
                   Inl err \<Rightarrow> Inl err
                 | Inr retVal \<Rightarrow> if getVal then Inr retVal else Inr None)))"

text \<open>
  \<^verbatim>\<open>prewriteMutation\<close>: an error, or the operations it appends to the batch (none when
  the transaction's own non-pessimistic lock is already on the key).
\<close>

definition prewriteLock ::
  "Mutation \<Rightarrow> u64 \<Rightarrow> bytes \<Rightarrow> u64 \<Rightarrow> u64 \<Rightarrow> u64 \<Rightarrow> batchOp list" where
  "prewriteLock mutation startTS primary ttl txnSize minCommitTS =
     (let op = m_Op mutation;
          op = (if op = Op_Insert then Op_Put else op);
          lock = \<lparr>l_startTS = startTS, l_primary = primary, l_value = m_Value mutation,
                  l_op = op, l_ttl = ttl, l_forUpdateTS = 0, l_txnSize = txnSize,
                  l_minCommitTS = 0\<rparr>;
          lock = (if primary = m_Key mutation then lock\<lparr>l_minCommitTS := minCommitTS\<rparr>
                  else lock);
          writeKey = (m_Key mutation, lockVer)
      in [BatchPut writeKey (LockRec lock)])"

definition prewriteMutation ::
  "db \<Rightarrow> Mutation \<Rightarrow> u64 \<Rightarrow> bytes \<Rightarrow> u64 \<Rightarrow> u64 \<Rightarrow> bool \<Rightarrow> u64 \<Rightarrow> AssertionLevel
     \<Rightarrow> mvcc_error + batchOp list" where
  "prewriteMutation d mutation startTS primary ttl txnSize isPessimisticLock minCommitTS
       assertionLevel =
     (let startKey = (m_Key mutation, lockVer);
          iter = newIterator d startKey
      in case lockDecode (m_Key mutation) iter of
           Inl err \<Rightarrow> Inl err
         | Inr (Some lock, iter') \<Rightarrow>
             if l_startTS lock \<noteq> startTS
             then Inl (lockErr (if isPessimisticLock then lock\<lparr>l_ttl := 0\<rparr> else lock)
                         (m_Key mutation))
             else if l_op lock \<noteq> Op_PessimisticLock then Inr []
             else
               (let ttl' = (if ttl < l_ttl lock then l_ttl lock else ttl);
                    minCommitTS' = (if minCommitTS < l_minCommitTS lock
                                    then l_minCommitTS lock else minCommitTS)
                in case checkConflictValue iter' mutation startTS startTS False assertionLevel of
                     Inl err \<Rightarrow> Inl err
                   | Inr _ \<Rightarrow> Inr (prewriteLock mutation startTS primary ttl' txnSize minCommitTS'))
         | Inr (None, iter') \<Rightarrow>
             if isPessimisticLock then Inl (ErrAbort ''pessimistic lock not found'')
             else
               (case checkConflictValue iter' mutation startTS startTS False assertionLevel of
                  Inl err \<Rightarrow> Inl err
                | Inr _ \<Rightarrow> Inr (prewriteLock mutation startTS primary ttl txnSize minCommitTS)))"

text \<open>
  The body of the loop of \<^verbatim>\<open>MVCCLevelDB.Prewrite\<close> for the mutation \<open>m\<close> at index \<open>i\<close>:
  it appends an error to the error list (\<open>Failed\<close>), goes on without appending
  (\<open>Skipped\<close>, a passed \<open>CheckNotExists\<close>), appends \<^verbatim>\<open>nil\<close> to the error list and its
  operations to the batch (\<open>Wrote\<close>), or panics on the index
  \<^verbatim>\<open>req.IsPessimisticLock[i]\<close> out of range (\<open>Panicked\<close>).  Every read is from the store
  as it was when the request arrived: the batch is written after the loop.
\<close>

datatype bodyResult = Failed mvcc_error | Skipped | Wrote "batchOp list" | Panicked

definition prewriteBody :: "db \<Rightarrow> PrewriteRequest \<Rightarrow> nat \<Rightarrow> Mutation \<Rightarrow> bodyResult" where
  "prewriteBody d req i m =
     (let op = m_Op m;
          checked =
            (if (op = Op_Insert \<or> op = Op_CheckNotExists) \<and> req_ForUpdateTs req = 0
             then (case mvcc_getValue d (m_Key m) (req_StartVersion req) IsolationLevel_SI
                          (req_ResolvedLocks req) of
                     Inl err \<Rightarrow> Some err
                   | Inr (Some v) \<Rightarrow> Some (ErrKeyAlreadyExist (m_Key m))
                   | Inr None \<Rightarrow> None)
             else None)
      in case checked of
           Some err \<Rightarrow> Failed err
         | None \<Rightarrow>
             if op = Op_CheckNotExists then Skipped
             else if length (req_IsPessimisticLock req) > 0
                     \<and> \<not> i < length (req_IsPessimisticLock req)
             then Panicked
             else
               (let isPessimisticLock =
                      (length (req_IsPessimisticLock req) > 0 \<and> req_IsPessimisticLock req ! i)
                in case prewriteMutation d m (req_StartVersion req) (req_PrimaryLock req)
                          (req_LockTtl req) (req_TxnSize req) isPessimisticLock
                          (req_MinCommitTs req) (req_AssertionLevel req) of
                     Inl err \<Rightarrow> Failed err
                   | Inr ops \<Rightarrow> Wrote ops))"

text \<open>
  The loop over the mutations from index \<open>i\<close> on, with the batch, the error list and
  \<^verbatim>\<open>anyError\<close> so far; \<open>None\<close> is the panic.
\<close>

fun prewriteLoop ::
  "db \<Rightarrow> PrewriteRequest \<Rightarrow> nat \<Rightarrow> Mutation list
     \<Rightarrow> batchOp list \<Rightarrow> mvcc_error option list \<Rightarrow> bool
     \<Rightarrow> (batchOp list \<times> mvcc_error option list \<times> bool) option" where
  "prewriteLoop d req i [] batch errs anyError = Some (batch, errs, anyError)"
| "prewriteLoop d req i (m # ms) batch errs anyError =
     (case prewriteBody d req i m of
        Failed err \<Rightarrow> prewriteLoop d req (Suc i) ms batch (errs @ [Some err]) True
      | Skipped \<Rightarrow> prewriteLoop d req (Suc i) ms batch errs anyError
      | Wrote ops \<Rightarrow> prewriteLoop d req (Suc i) ms (batch @ ops) (errs @ [None]) anyError
      | Panicked \<Rightarrow> None)"

text \<open>
  \<^verbatim>\<open>MVCCLevelDB.Prewrite\<close>: the error list and the store afterwards.  The store is
  in memory, so \<^verbatim>\<open>db.Write\<close> itself does not fail.
\<close>

definition Prewrite :: "PrewriteRequest \<Rightarrow> db \<Rightarrow> (mvcc_error option list \<times> db) option" where
  "Prewrite req d =
     (case prewriteLoop d req 0 (req_Mutations req) [] [] False of
        None \<Rightarrow> None
      | Some (batch, errs, anyError) \<Rightarrow>
          if anyError then Some (errs, d)
          else Some (errs, dbWrite d batch))"

subsection \<open>Commit and rollback\<close>

text \<open>\<^verbatim>\<open>getTxnCommitInfo\<close>: the first write record of the key that has this start timestamp.\<close>

function getTxnCommitInfo :: "iterator \<Rightarrow> bytes \<Rightarrow> u64 \<Rightarrow> mvcc_error + mvccValue option" where
  "getTxnCommitInfo iter expectKey startTS =
     (if iter = [] then Inr None
      else (case valueDecode expectKey iter of
              Inl err \<Rightarrow> Inl err
            | Inr (None, iter') \<Rightarrow> Inr None
            | Inr (Some value, iter') \<Rightarrow>
                if v_startTS value = startTS then Inr (Some value)
                else getTxnCommitInfo iter' expectKey startTS))"
  by pat_completeness auto
termination
  by (relation "measure (\<lambda>(iter, expectKey, startTS). length iter)")
     (auto dest: valueDecode_shorter)

declare getTxnCommitInfo.simps [simp del]

definition commitLock :: "mvccLock \<Rightarrow> bytes \<Rightarrow> u64 \<Rightarrow> u64 \<Rightarrow> batchOp list" where
  "commitLock lock key startTS commitTS =
     (let valueType = (if l_op lock = Op_Put then typePut
                       else if l_op lock = Op_Lock then typeLock
                       else typeDelete);
          value = \<lparr>v_valueType = valueType, v_startTS = startTS, v_commitTS = commitTS,
                   v_value = l_value lock\<rparr>;
          writeKey = (key, commitTS)
      in [BatchPut writeKey (ValueRec value), BatchDelete (key, lockVer)])"

text \<open>
  \<^verbatim>\<open>commitKey\<close>.  When \<^verbatim>\<open>getTxnCommitInfo\<close> fails, the source returns the variable
  \<^verbatim>\<open>err\<close> of the lock decoding, which is \<^verbatim>\<open>nil\<close> at that point: the key counts as
  committed and nothing is written for it.
\<close>

definition commitKey :: "db \<Rightarrow> bytes \<Rightarrow> u64 \<Rightarrow> u64 \<Rightarrow> mvcc_error + batchOp list" where
  "commitKey d key startTS commitTS =
     (let startKey = (key, lockVer);
          iter = newIterator d startKey
      in case lockDecode key iter of
           Inl err \<Rightarrow> Inl err
         | Inr (lock, iter') \<Rightarrow>
             if lock = None \<or> l_startTS (the lock) \<noteq> startTS
             then (case getTxnCommitInfo iter' key startTS of
                     Inl err1 \<Rightarrow> Inr []
                   | Inr (Some c) \<Rightarrow>
                       if v_valueType c \<noteq> typeRollback then Inr []
                       else Inl (ErrRetryable ''txn not found'')
                   | Inr None \<Rightarrow> Inl (ErrRetryable ''txn not found''))
             else if l_minCommitTS (the lock) > commitTS
             then Inl (ErrCommitTSExpired startTS commitTS key (l_minCommitTS (the lock)))
             else Inr (commitLock (the lock) key startTS commitTS))"

fun commitKeys :: "db \<Rightarrow> bytes list \<Rightarrow> u64 \<Rightarrow> u64 \<Rightarrow> batchOp list \<Rightarrow> mvcc_error + batchOp list" where
  "commitKeys d [] startTS commitTS batch = Inr batch"
| "commitKeys d (k # ks) startTS commitTS batch =
     (case commitKey d k startTS commitTS of
        Inl err \<Rightarrow> Inl err
      | Inr ops \<Rightarrow> commitKeys d ks startTS commitTS (batch @ ops))"

text \<open>\<^verbatim>\<open>MVCCLevelDB.Commit\<close>: the error (\<open>None\<close> for \<^verbatim>\<open>nil\<close>) and the store afterwards.\<close>

definition Commit :: "db \<Rightarrow> bytes list \<Rightarrow> u64 \<Rightarrow> u64 \<Rightarrow> mvcc_error option \<times> db" where
  "Commit d keys startTS commitTS =
     (case commitKeys d keys startTS commitTS [] of
        Inl err \<Rightarrow> (Some err, d)
      | Inr batch \<Rightarrow> (None, dbWrite d batch))"

definition writeRollback :: "bytes \<Rightarrow> u64 \<Rightarrow> batchOp list" where
  "writeRollback key startTS =
     (let tomb = \<lparr>v_valueType = typeRollback, v_startTS = startTS, v_commitTS = startTS,
                  v_value = []\<rparr>;
          writeKey = (key, startTS)
      in [BatchPut writeKey (ValueRec tomb)])"

definition rollbackLock :: "bytes \<Rightarrow> u64 \<Rightarrow> batchOp list" where
  "rollbackLock key startTS = writeRollback key startTS @ [BatchDelete (key, lockVer)]"

definition rollbackKey :: "db \<Rightarrow> bytes \<Rightarrow> u64 \<Rightarrow> mvcc_error + batchOp list" where
  "rollbackKey d key startTS =
     (let startKey = (key, lockVer);
          iter = newIterator d startKey;
          notPrewritten =
            (let value = \<lparr>v_valueType = typeRollback, v_startTS = startTS,
                           v_commitTS = startTS, v_value = []\<rparr>;
                 writeKey = (key, startTS)
             in Inr [BatchPut writeKey (ValueRec value)])
      in if iter \<noteq> [] then
           (case lockDecode key iter of
              Inl err \<Rightarrow> Inl err
            | Inr (lock, iter') \<Rightarrow>
                if lock \<noteq> None \<and> l_startTS (the lock) = startTS
                then Inr (rollbackLock key startTS)
                else (case getTxnCommitInfo iter' key startTS of
                        Inl err \<Rightarrow> Inl err
                      | Inr (Some c) \<Rightarrow>
                          if v_valueType c \<noteq> typeRollback
                          then Inl (ErrAlreadyCommitted (v_commitTS c))
                          else Inr []
                      | Inr None \<Rightarrow> notPrewritten))
         else notPrewritten)"

fun rollbackKeys :: "db \<Rightarrow> bytes list \<Rightarrow> u64 \<Rightarrow> batchOp list \<Rightarrow> mvcc_error + batchOp list" where
  "rollbackKeys d [] startTS batch = Inr batch"
| "rollbackKeys d (k # ks) startTS batch =
     (case rollbackKey d k startTS of
        Inl err \<Rightarrow> Inl err
      | Inr ops \<Rightarrow> rollbackKeys d ks startTS (batch @ ops))"

text \<open>\<^verbatim>\<open>MVCCLevelDB.Rollback\<close>.\<close>

definition Rollback :: "db \<Rightarrow> bytes list \<Rightarrow> u64 \<Rightarrow> mvcc_error option \<times> db" where
  "Rollback d keys startTS =
     (case rollbackKeys d keys startTS [] of
        Inl err \<Rightarrow> (Some err, d)
      | Inr batch \<Rightarrow> (None, dbWrite d batch))"

subsection \<open>CheckTxnStatus\<close>

datatype Action =
    Action_NoAction
  | Action_TTLExpireRollback
  | Action_LockNotExistRollback
  | Action_MinCommitTSPushed
  | Action_TTLExpirePessimisticRollback
  | Action_LockNotExistDoNothing

text \<open>
  Modelled from the spec: \<^verbatim>\<open>oracle.ExtractPhysical\<close> is not among the sources.  By the
  spec a timestamp holds the physical milliseconds in its upper bits and a logical
  counter below; the counter has 18 bits.
\<close>

definition ExtractPhysical :: "u64 \<Rightarrow> u64" where
  "ExtractPhysical ts = drop_bit 18 ts"

definition pessimisticRollbackKey ::
  "db \<Rightarrow> bytes \<Rightarrow> u64 \<Rightarrow> u64 \<Rightarrow> mvcc_error + batchOp list" where
  "pessimisticRollbackKey d key startTS forUpdateTS =
     (let startKey = (key, lockVer);
          iter = newIterator d startKey
      in case lockDecode key iter of
           Inl err \<Rightarrow> Inl err
         | Inr (Some lock, iter') \<Rightarrow>
             if l_op lock = Op_PessimisticLock \<and> l_startTS lock = startTS
                \<and> l_forUpdateTS lock \<le> forUpdateTS
             then Inr [BatchDelete startKey] else Inr []
         | Inr (None, iter') \<Rightarrow> Inr [])"

text \<open>
  \<^verbatim>\<open>MVCCLevelDB.CheckTxnStatus\<close>: the results \<^verbatim>\<open>(ttl, commitTS, action, err)\<close> and the
  store afterwards.
\<close>

definition CheckTxnStatus ::
  "db \<Rightarrow> bytes \<Rightarrow> u64 \<Rightarrow> u64 \<Rightarrow> u64 \<Rightarrow> bool \<Rightarrow> bool
     \<Rightarrow> (u64 \<times> u64 \<times> Action \<times> mvcc_error option) \<times> db" where
  "CheckTxnStatus d primaryKey lockTS callerStartTS currentTS rollbackIfNotExist
       resolvingPessimisticLock =
     (let action = Action_NoAction;
          startKey = (primaryKey, lockVer);
          iter = newIterator d startKey;
          notPrewritten =
            (if rollbackIfNotExist then
               (if resolvingPessimisticLock
                then ((0, 0, Action_LockNotExistDoNothing, None), d)
                else ((0, 0, Action_LockNotExistRollback, None),
                      dbWrite d (writeRollback primaryKey lockTS)))
             else ((0, 0, action, Some (ErrTxnNotFound lockTS primaryKey)), d))
      in if iter \<noteq> [] then
           (case lockDecode primaryKey iter of
              Inl err \<Rightarrow> ((0, 0, action, Some err), d)
            | Inr (dlock, iter') \<Rightarrow>
                if dlock \<noteq> None \<and> l_startTS (the dlock) = lockTS then
                  (let lock = the dlock in
                   if ExtractPhysical (l_startTS lock) + l_ttl lock < ExtractPhysical currentTS
                   then
                     (if resolvingPessimisticLock \<and> l_op lock = Op_PessimisticLock
                      then (case pessimisticRollbackKey d primaryKey (l_startTS lock)
                                   (l_forUpdateTS lock) of
                              Inl err \<Rightarrow>
                                ((0, 0, Action_TTLExpirePessimisticRollback, Some err), d)
                            | Inr ops \<Rightarrow>
                                ((0, 0, Action_TTLExpirePessimisticRollback, None),
                                 dbWrite d ops))
                      else ((0, 0, Action_TTLExpireRollback, None),
                            dbWrite d (rollbackLock primaryKey lockTS)))
                   else if callerStartTS = - 1
                   then ((l_ttl lock, 0, Action_MinCommitTSPushed, None), d)
                   else if l_minCommitTS lock > 0 then
                     (if l_minCommitTS lock < callerStartTS + 1 then
                        (let lock1 = lock\<lparr>l_minCommitTS := callerStartTS + 1\<rparr>;
                             lock2 = (if l_minCommitTS lock1 < currentTS
                                      then lock1\<lparr>l_minCommitTS := currentTS\<rparr> else lock1)
                         in ((l_ttl lock2, 0, Action_MinCommitTSPushed, None),
                             dbWrite d [BatchPut (primaryKey, lockVer) (LockRec lock2)]))
                      else ((l_ttl lock, 0, Action_MinCommitTSPushed, None), d))
                   else ((l_ttl lock, 0, action, None), d))
                else
                  (case getTxnCommitInfo iter' primaryKey lockTS of
                     Inl err1 \<Rightarrow> ((0, 0, action, Some err1), d)
                   | Inr (Some c) \<Rightarrow>
                       if v_valueType c \<noteq> typeRollback
                       then ((0, v_commitTS c, action, None), d)
                       else ((0, 0, Action_NoAction, None), d)
                   | Inr None \<Rightarrow> notPrewritten))
         else notPrewritten)"

section \<open>Well-formed stores and the view of one key\<close>

text \<open>
  In a well-formed store the keys are strictly ascending in the order of the encoded
  keys, the lock slot of a key holds a lock, and every other slot holds a write record
  whose commit timestamp is the version of the slot.
\<close>

fun typed_entry :: "entry \<Rightarrow> bool" where
  "typed_entry ((k, ver), LockRec l) = (ver = lockVer)"
| "typed_entry ((k, ver), ValueRec v) = (ver \<noteq> lockVer \<and> v_commitTS v = ver)"

definition wf_db :: "db \<Rightarrow> bool" where
  "wf_db d = (sorted_wrt mvccLess (map fst d) \<and> list_all typed_entry d)"

text \<open>The lock of a key, and its write records in the order of the store.\<close>

fun lockOf :: "db \<Rightarrow> bytes \<Rightarrow> mvccLock option" where
  "lockOf [] k = None"
| "lockOf (((k', ver), p) # rest) k =
     (case p of
        LockRec l \<Rightarrow> if k' = k \<and> ver = lockVer then Some l else lockOf rest k
      | ValueRec v \<Rightarrow> lockOf rest k)"

fun writesOf :: "db \<Rightarrow> bytes \<Rightarrow> mvccValue list" where
  "writesOf [] k = []"
| "writesOf (((k', ver), p) # rest) k =
     (case p of
        ValueRec v \<Rightarrow> if k' = k \<and> ver \<noteq> lockVer then v # writesOf rest k else writesOf rest k
      | LockRec l \<Rightarrow> writesOf rest k)"

text \<open>
  The read rule in the words of the spec: skip \<open>Rollback\<close> and \<open>Lock\<close> records; the first
  remaining record with \<open>commit_ts \<le> start_ts\<close> decides: a \<open>Put\<close> gives its value, a
  \<open>Delete\<close> gives not-found; no such record gives not-found.
\<close>

definition firstVisible :: "u64 \<Rightarrow> mvccValue list \<Rightarrow> bytes option" where
  "firstVisible startTS ws =
     (case find (\<lambda>v. v_valueType v \<noteq> typeRollback \<and> v_valueType v \<noteq> typeLock
                      \<and> v_commitTS v \<le> startTS) ws of
        None \<Rightarrow> None
      | Some v \<Rightarrow> if v_valueType v = typePut then Some (v_value v) else None)"


text \<open>An iterator positioned after the lock slot of \<open>k\<close>.\<close>

definition after :: "bytes \<Rightarrow> iterator \<Rightarrow> bool" where
  "after k it = (sorted_wrt mvccLess (map fst it) \<and> list_all typed_entry it
                 \<and> list_all (\<lambda>e. mvccLess (k, lockVer) (fst e)) it)"

text \<open>The part of the store behind the lock slot of \<open>k\<close>.\<close>

definition valuesIter :: "db \<Rightarrow> bytes \<Rightarrow> iterator" where
  "valuesIter d k = filter (\<lambda>e. mvccLess (k, lockVer) (fst e)) d"

text \<open>
  The outcomes of \<open>Commit\<close>, \<open>Rollback\<close> and \<open>CheckTxnStatus\<close> on one key, in terms of
  the lock and the write records of the key: the write type that belongs to a lock's
  operation, the answer for a key whose lock is missing or belongs to another
  transaction, and the tombstone of a rolled-back transaction.
\<close>

definition writeTypeOf :: "Op \<Rightarrow> mvccValueType" where
  "writeTypeOf op = (if op = Op_Put then typePut else if op = Op_Lock then typeLock else typeDelete)"

definition committedBefore :: "db \<Rightarrow> bytes \<Rightarrow> u64 \<Rightarrow> mvcc_error option" where
  "committedBefore d k startTS =
     (case find (\<lambda>v. v_startTS v = startTS) (writesOf d k) of
        Some c \<Rightarrow> if v_valueType c \<noteq> typeRollback then None
                  else Some (ErrRetryable ''txn not found'')
      | None \<Rightarrow> Some (ErrRetryable ''txn not found''))"

definition tombstone :: "u64 \<Rightarrow> mvccValue" where
  "tombstone startTS =
     \<lparr>v_valueType = typeRollback, v_startTS = startTS, v_commitTS = startTS, v_value = []\<rparr>"

definition rollbackUnlocked :: "db \<Rightarrow> bytes \<Rightarrow> u64 \<Rightarrow> mvcc_error option \<times> db" where
  "rollbackUnlocked d k startTS =
     (case find (\<lambda>v. v_startTS v = startTS) (writesOf d k) of
        Some c \<Rightarrow> if v_valueType c \<noteq> typeRollback
                  then (Some (ErrAlreadyCommitted (v_commitTS c)), d)
                  else (None, d)
      | None \<Rightarrow> (None, dbPut (k, startTS) (ValueRec (tombstone startTS)) d))"

definition checkNotExist ::
  "db \<Rightarrow> bytes \<Rightarrow> u64 \<Rightarrow> bool \<Rightarrow> bool \<Rightarrow> (u64 \<times> u64 \<times> Action \<times> mvcc_error option) \<times> db" where
  "checkNotExist d p lockTS rollbackIfNotExist resolvingPessimisticLock =
     (if rollbackIfNotExist then
        (if resolvingPessimisticLock
         then ((0, 0, Action_LockNotExistDoNothing, None), d)
         else ((0, 0, Action_LockNotExistRollback, None),
               dbPut (p, lockTS) (ValueRec (tombstone lockTS)) d))
      else ((0, 0, Action_NoAction, Some (ErrTxnNotFound lockTS p)), d))"

text \<open>
  An example store: key \<open>[1]\<close> is locked by the transaction that started at 7 and has
  the write records \<open>Put\<close> at 5, \<open>Rollback\<close> at 3 and \<open>Put\<close> at 2.
\<close>

definition exLock :: mvccLock where
  "exLock = \<lparr>l_startTS = 7, l_primary = [1], l_value = [9], l_op = Op_Put, l_ttl = 3000,
              l_forUpdateTS = 0, l_txnSize = 1, l_minCommitTS = 8\<rparr>"

definition exDb :: db where
  "exDb = [(([1], lockVer), LockRec exLock),
           (([1], 5), ValueRec \<lparr>v_valueType = typePut, v_startTS = 4, v_commitTS = 5, v_value = [42]\<rparr>),
           (([1], 3), ValueRec \<lparr>v_valueType = typeRollback, v_startTS = 3, v_commitTS = 3, v_value = []\<rparr>),
           (([1], 2), ValueRec \<lparr>v_valueType = typePut, v_startTS = 1, v_commitTS = 2, v_value = [41]\<rparr>)]"

text \<open>
  An example request: the transaction that started at 20 prewrites \<open>Put\<close> mutations on
  the keys \<open>[2]\<close> (its primary) and \<open>[1]\<close>.
\<close>

definition exReq :: PrewriteRequest where
  "exReq = \<lparr>req_Mutations =
               [\<lparr>m_Op = Op_Put, m_Key = [2], m_Value = [5], m_Assertion = Assertion_None\<rparr>,
                \<lparr>m_Op = Op_Put, m_Key = [1], m_Value = [6], m_Assertion = Assertion_None\<rparr>],
             req_PrimaryLock = [2], req_StartVersion = 20, req_LockTtl = 3000,
             req_IsPessimisticLock = [], req_ForUpdateTs = 0, req_TxnSize = 2,
             req_MinCommitTs = 21, req_MaxCommitTs = 0,
             req_AssertionLevel = AssertionLevel_Off, req_UseAsyncCommit = False,
             req_Secondaries = [], req_TryOnePc = False, req_ResolvedLocks = []\<rparr>"

text \<open>
  Replaying a prewrite: the sub-request that keeps the mutations selected by \<open>sel\<close>
  (and their \<open>IsPessimisticLock\<close> flags), and the error lists without an error.
\<close>

definition pick :: "'a list \<Rightarrow> bool list \<Rightarrow> 'a list" where
  "pick xs sel = map fst (filter snd (zip xs sel))"

definition subRequest :: "PrewriteRequest \<Rightarrow> bool list \<Rightarrow> PrewriteRequest" where
  "subRequest req sel =
     req\<lparr>req_Mutations := pick (req_Mutations req) sel,
         req_IsPessimisticLock := pick (req_IsPessimisticLock req) sel\<rparr>"

definition succeeded :: "mvcc_error option list \<Rightarrow> bool" where
  "succeeded errs = list_all (\<lambda>e. e = None) errs"

text \<open>The loop body with the flag of the mutation given.\<close>

definition prewriteStep :: "db \<Rightarrow> PrewriteRequest \<Rightarrow> Mutation \<times> bool \<Rightarrow> bodyResult" where
  "prewriteStep d req z =
     (let m = fst z; op = m_Op m;
          checked =
            (if (op = Op_Insert \<or> op = Op_CheckNotExists) \<and> req_ForUpdateTs req = 0
             then (case mvcc_getValue d (m_Key m) (req_StartVersion req) IsolationLevel_SI
                          (req_ResolvedLocks req) of
                     Inl err \<Rightarrow> Some err
                   | Inr (Some v) \<Rightarrow> Some (ErrKeyAlreadyExist (m_Key m))
                   | Inr None \<Rightarrow> None)
             else None)
      in case checked of
           Some err \<Rightarrow> Failed err
         | None \<Rightarrow>
             if op = Op_CheckNotExists then Skipped
             else (case prewriteMutation d m (req_StartVersion req) (req_PrimaryLock req)
                          (req_LockTtl req) (req_TxnSize req) (snd z)
                          (req_MinCommitTs req) (req_AssertionLevel req) of
                     Inl err \<Rightarrow> Failed err
                   | Inr ops \<Rightarrow> Wrote ops))"

definition flagsOf :: "PrewriteRequest \<Rightarrow> bool list" where
  "flagsOf req =
     (if req_IsPessimisticLock req = [] then replicate (length (req_Mutations req)) False
      else req_IsPessimisticLock req)"

fun stepOps :: "bodyResult \<Rightarrow> batchOp list" where
  "stepOps (Wrote ops) = ops"
| "stepOps _ = []"

fun stepErrs :: "bodyResult \<Rightarrow> mvcc_error option list" where
  "stepErrs (Failed e) = [Some e]"
| "stepErrs (Wrote ops) = [None]"
| "stepErrs _ = []"

fun stepFailed :: "bodyResult \<Rightarrow> bool" where
  "stepFailed (Failed e) = True"
| "stepFailed _ = False"

fun isLockPut :: "batchOp \<Rightarrow> bool" where
  "isLockPut (BatchPut (k, ver) (LockRec L)) = (ver = lockVer)"
| "isLockPut _ = False"

fun putAt :: "batchOp list \<Rightarrow> bytes \<Rightarrow> mvccLock option" where
  "putAt [] k = None"
| "putAt (op # ops) k =
     (case putAt ops k of
        Some L \<Rightarrow> Some L
      | None \<Rightarrow> (case op of
                   BatchPut (k', ver) (LockRec L) \<Rightarrow> if k' = k then Some L else None
                 | _ \<Rightarrow> None))"

definition lockPutOf :: "('z \<Rightarrow> bytes) \<Rightarrow> ('z \<Rightarrow> batchOp list) \<Rightarrow> 'z \<Rightarrow> bool" where
  "lockPutOf key f z = (f z = [] \<or> (\<exists>L. f z = [BatchPut (key z, lockVer) (LockRec L)]))"

text \<open>
  Example requests of the transaction that started at 20, on the keys \<open>[2]\<close> and
  \<open>[3]\<close>: one inserts \<open>[2]\<close>, the other puts it; and the locks they install.
\<close>

definition exReq2 :: PrewriteRequest where
  "exReq2 = \<lparr>req_Mutations =
               [\<lparr>m_Op = Op_Insert, m_Key = [2], m_Value = [5], m_Assertion = Assertion_None\<rparr>,
                \<lparr>m_Op = Op_Put, m_Key = [3], m_Value = [6], m_Assertion = Assertion_None\<rparr>],
             req_PrimaryLock = [2], req_StartVersion = 20, req_LockTtl = 3000,
             req_IsPessimisticLock = [], req_ForUpdateTs = 0, req_TxnSize = 2,
             req_MinCommitTs = 21, req_MaxCommitTs = 0,
             req_AssertionLevel = AssertionLevel_Off, req_UseAsyncCommit = False,
             req_Secondaries = [], req_TryOnePc = False, req_ResolvedLocks = []\<rparr>"

definition exLock2 :: mvccLock where
  "exLock2 = \<lparr>l_startTS = 20, l_primary = [2], l_value = [5], l_op = Op_Put, l_ttl = 3000,
               l_forUpdateTS = 0, l_txnSize = 2, l_minCommitTS = 21\<rparr>"

definition exLock3 :: mvccLock where
  "exLock3 = \<lparr>l_startTS = 20, l_primary = [2], l_value = [6], l_op = Op_Put, l_ttl = 3000,
               l_forUpdateTS = 0, l_txnSize = 2, l_minCommitTS = 0\<rparr>"

definition exReq3 :: PrewriteRequest where
  "exReq3 = exReq2\<lparr>req_Mutations :=
               [\<lparr>m_Op = Op_Put, m_Key = [2], m_Value = [5], m_Assertion = Assertion_None\<rparr>,
                \<lparr>m_Op = Op_Put, m_Key = [3], m_Value = [6], m_Assertion = Assertion_None\<rparr>]\<rparr>"

text \<open>
  What the loop body does for each mutation of a request, in the order of the
  mutations, every one on the store as it was when the request arrived.
\<close>

definition prewriteBodies :: "db \<Rightarrow> PrewriteRequest \<Rightarrow> bodyResult list" where
  "prewriteBodies d req =
     map (\<lambda>j. prewriteBody d req j (req_Mutations req ! j)) [0..<length (req_Mutations req)]"

text \<open>
  A request with two mutations and one \<open>IsPessimisticLock\<close> flag: it puts the key
  \<open>[1]\<close>, which another transaction has locked, and the key \<open>[2]\<close>.
\<close>

definition exReqShort :: PrewriteRequest where
  "exReqShort = exReq\<lparr>req_Mutations :=
                  [\<lparr>m_Op = Op_Put, m_Key = [1], m_Value = [6], m_Assertion = Assertion_None\<rparr>,
                   \<lparr>m_Op = Op_Put, m_Key = [2], m_Value = [5], m_Assertion = Assertion_None\<rparr>],
                req_IsPessimisticLock := [False]\<rparr>"

subsection \<open>Seeking the lock slot of a key\<close>
lemma mvccLess_trans: "mvccLess a b \<Longrightarrow> mvccLess b c \<Longrightarrow> mvccLess a c"
  by (cases a; cases b; cases c) auto

lemma mvccLess_irrefl: "\<not> mvccLess a a"
  by (cases a) auto

lemma mvccLess_asym: "mvccLess a b \<Longrightarrow> \<not> mvccLess b a"
  by (cases a; cases b) auto

lemma mvccLess_total: "a \<noteq> b \<Longrightarrow> mvccLess a b \<or> mvccLess b a"
  by (cases a; cases b) auto

lemma lockVer_max: "v \<noteq> lockVer \<Longrightarrow> v < lockVer"
  unfolding lockVer_def by (simp add: word_order.not_eq_extremum)

lemma after_Nil: "after k []"
  by (simp add: after_def)

lemma after_tl: "after k (e # it) \<Longrightarrow> after k it"
  by (simp add: after_def)

lemma after_other_key:
  assumes "after k (((k', ver), p) # it)" "k' \<noteq> k"
  shows "writesOf (((k', ver), p) # it) k = []"
proof -
  have lt: "k < k'" using assms by (auto simp: after_def)
  have "\<forall>e\<in>set it. k < fst (fst e)"
  proof
    fix e assume "e \<in> set it"
    then have "mvccLess (k', ver) (fst e)" using assms(1) by (auto simp: after_def)
    then have "k' \<le> fst (fst e)" by (cases e) auto
    with lt show "k < fst (fst e)" by simp
  qed
  then have "writesOf it k = []"
    by (induction it) (auto split: payload.splits)
  with assms(2) show ?thesis by (auto split: payload.splits)
qed

lemma after_same_key:
  assumes "after k (((k, ver), p) # it)"
  obtains v where "p = ValueRec v" "ver \<noteq> lockVer" "v_commitTS v = ver"
proof -
  have "ver < lockVer" using assms by (auto simp: after_def)
  then have ne: "ver \<noteq> lockVer" by auto
  with assms show ?thesis using that
    by (cases p) (auto simp: after_def)
qed

lemma valueDecode_after:
  assumes "after k it"
  shows "valueDecode k it =
           (case writesOf it k of
              [] \<Rightarrow> Inr (None, it)
            | v # ws \<Rightarrow> Inr (Some v, tl it))
         \<and> (writesOf it k \<noteq> [] \<longrightarrow> writesOf (tl it) k = tl (writesOf it k))"
proof (cases it)
  case Nil
  then show ?thesis by simp
next
  case (Cons e rest)
  obtain k' ver p where e: "e = ((k', ver), p)" by (cases e) auto
  show ?thesis
  proof (cases "k' = k")
    case False
    with after_other_key[of k k' ver p rest] assms Cons e show ?thesis by simp
  next
    case True
    with assms Cons e obtain v where "p = ValueRec v" "ver \<noteq> lockVer"
      using after_same_key by blast
    with True Cons e show ?thesis by simp
  qed
qed

lemma getValueLoop_after:
  "after k it \<Longrightarrow> getValueLoop k s it = Inr (firstVisible s (writesOf it k))"
proof (induction it)
  case Nil
  then show ?case by (simp add: getValueLoop.simps firstVisible_def)
next
  case (Cons e rest)
  note vd = valueDecode_after[OF Cons.prems]
  have ih: "getValueLoop k s rest = Inr (firstVisible s (writesOf rest k))"
    using Cons.IH after_tl[OF Cons.prems] .
  show ?case
  proof (cases "writesOf (e # rest) k")
    case Nil
    with vd show ?thesis
      by (subst getValueLoop.simps) (simp add: firstVisible_def)
  next
    case (Cons v ws)
    with vd have d: "valueDecode k (e # rest) = Inr (Some v, rest)" and w: "writesOf rest k = ws"
      by simp_all
    show ?thesis
      apply (subst getValueLoop.simps)
      using d w ih Cons
      apply (simp add: firstVisible_def)
      apply (cases "v_valueType v")
      apply auto
      done
  qed
qed


lemma after_valuesIter: "wf_db d \<Longrightarrow> after k (valuesIter d k)"
  by (auto simp: wf_db_def after_def valuesIter_def sorted_wrt_map sorted_wrt_filter list_all_iff)

lemma writesOf_valuesIter: "writesOf (valuesIter d k) k = writesOf d k"
  unfolding valuesIter_def
  by (induction d) (auto split: payload.splits dest: lockVer_max)

lemma lockOf_none: "\<forall>e\<in>set d. fst e \<noteq> (k, lockVer) \<Longrightarrow> lockOf d k = None"
  by (induction d) (auto split: payload.splits)

lemma lockDecode_above:
  assumes "\<forall>e\<in>set d. mvccLess (k, lockVer) (fst e)"
  shows "lockDecode k d = Inr (None, d)"
proof (cases d)
  case Nil
  then show ?thesis by simp
next
  case (Cons e rest)
  obtain k' ver p where e: "e = ((k', ver), p)" by (cases e) auto
  with assms Cons have "mvccLess (k, lockVer) (k', ver)" by simp
  then have "k' \<noteq> k \<or> ver \<noteq> lockVer" by auto
  with Cons e show ?thesis by auto
qed

lemma seek_lock:
  assumes "wf_db d"
  shows "lockDecode k (newIterator d (k, lockVer)) = Inr (lockOf d k, valuesIter d k)"
  using assms
proof (induction d)
  case Nil
  then show ?case by (simp add: newIterator_def valuesIter_def)
next
  case (Cons e rest)
  obtain k' ver p where e: "e = ((k', ver), p)" by (cases e) auto
  have wfr: "wf_db rest" using Cons.prems by (simp add: wf_db_def)
  have gt: "\<forall>x\<in>set rest. mvccLess (fst e) (fst x)"
    using Cons.prems by (simp add: wf_db_def)
  note ih = Cons.IH[OF wfr]
  consider (lt) "mvccLess (k', ver) (k, lockVer)" | (eq) "(k', ver) = (k, lockVer)"
    | (gt) "mvccLess (k, lockVer) (k', ver)"
    using mvccLess_total by blast
  then show ?case
  proof cases
    case lt
    then have ne: "(k', ver) \<noteq> (k, lockVer)" using mvccLess_irrefl by metis
    have ng: "\<not> mvccLess (k, lockVer) (k', ver)" using lt mvccLess_asym by blast
    have "lockOf (e # rest) k = lockOf rest k"
      using ne e by (auto split: payload.splits)
    with ih lt ng e show ?thesis
      by (simp add: newIterator_def valuesIter_def)
  next
    case eq
    then obtain l where p: "p = LockRec l"
      using Cons.prems e by (cases p) (auto simp: wf_db_def)
    have all: "\<forall>x\<in>set rest. mvccLess (k, lockVer) (fst x)"
      using gt e eq by simp
    then have f1: "filter (\<lambda>e. \<not> mvccLess (fst e) (k, lockVer)) rest = rest"
      by (auto simp: filter_id_conv dest: mvccLess_asym)
    have f2: "filter (\<lambda>e. mvccLess (k, lockVer) (fst e)) rest = rest"
      using all by (auto simp: filter_id_conv)
    show ?thesis
      using eq e p f1 f2
      by (simp add: newIterator_def valuesIter_def mvccLess_irrefl del: mvccLess.simps)
  next
    case gt
    have all: "\<forall>x\<in>set (e # rest). mvccLess (k, lockVer) (fst x)"
      using gt \<open>\<forall>x\<in>set rest. mvccLess (fst e) (fst x)\<close> e
      by (auto intro: mvccLess_trans simp del: mvccLess.simps)
    then have f1: "filter (\<lambda>e. \<not> mvccLess (fst e) (k, lockVer)) (e # rest) = e # rest"
      by (auto simp: filter_id_conv dest: mvccLess_asym simp del: mvccLess.simps)
    have f2: "filter (\<lambda>e. mvccLess (k, lockVer) (fst e)) (e # rest) = e # rest"
      using all by (auto simp: filter_id_conv simp del: mvccLess.simps)
    have "\<forall>x\<in>set (e # rest). fst x \<noteq> (k, lockVer)"
      using all mvccLess_irrefl by metis
    then have "lockOf (e # rest) k = None" by (rule lockOf_none)
    with lockDecode_above[OF all] show ?thesis
      by (simp only: newIterator_def valuesIter_def f1 f2)
  qed
qed

lemma newIterator_empty:
  assumes "newIterator d (k, lockVer) = []"
  shows "lockOf d k = None \<and> writesOf d k = []"
proof -
  have a: "\<forall>e\<in>set d. mvccLess (fst e) (k, lockVer)"
    using assms by (auto simp: newIterator_def filter_empty_conv)
  then have "\<forall>e\<in>set d. fst e \<noteq> (k, lockVer)" using mvccLess_irrefl by metis
  then have 1: "lockOf d k = None" by (rule lockOf_none)
  have "\<forall>e\<in>set d. fst (fst e) \<noteq> k \<or> snd (fst e) = lockVer"
  proof
    fix e assume "e \<in> set d"
    with a have "mvccLess (fst e) (k, lockVer)" by blast
    then show "fst (fst e) \<noteq> k \<or> snd (fst e) = lockVer"
      by (cases e) (auto simp: lockVer_def)
  qed
  then have 2: "writesOf d k = []"
    by (induction d) (auto split: payload.splits)
  from 1 2 show ?thesis by simp
qed


subsection \<open>Reading a key\<close>

lemma writesOf_mem:
  "list_all typed_entry d \<Longrightarrow> w \<in> set (writesOf d k)
     \<Longrightarrow> ((k, v_commitTS w), ValueRec w) \<in> set d"
  by (induction d) (auto split: payload.splits if_splits)

lemma writesOf_descending:
  assumes "wf_db d"
  shows "sorted_wrt (\<lambda>a b. v_commitTS b < v_commitTS a) (writesOf d k)"
  using assms
proof (induction d)
  case Nil
  then show ?case by simp
next
  case (Cons e rest)
  obtain k' ver p where e: "e = ((k', ver), p)" by (cases e) auto
  have wfr: "wf_db rest" using Cons.prems by (simp add: wf_db_def)
  have typed: "list_all typed_entry rest" using wfr by (simp add: wf_db_def)
  have gt: "\<forall>x\<in>set rest. mvccLess (k', ver) (fst x)"
    using Cons.prems e by (simp add: wf_db_def)
  note ih = Cons.IH[OF wfr]
  show ?case
  proof (cases "\<exists>v. p = ValueRec v \<and> k' = k \<and> ver \<noteq> lockVer")
    case False
    then have "writesOf (e # rest) k = writesOf rest k"
      using e by (auto split: payload.splits)
    with ih show ?thesis by simp
  next
    case True
    then obtain v where p: "p = ValueRec v" and k: "k' = k" and nl: "ver \<noteq> lockVer" by blast
    have c: "v_commitTS v = ver" using Cons.prems e p by (simp add: wf_db_def)
    have "\<forall>w\<in>set (writesOf rest k). v_commitTS w < ver"
    proof
      fix w assume "w \<in> set (writesOf rest k)"
      from writesOf_mem[OF typed this] gt k show "v_commitTS w < ver" by fastforce
    qed
    with ih e p k nl c show ?thesis by simp
  qed
qed

lemma wf_exDb: "wf_db exDb"
  by (simp add: wf_db_def exDb_def lockVer_def)


text \<open>
  C1. On a well-formed store, \<open>Get(k, s, iso, resolved)\<close> returns the \<open>Locked\<close> error
  when a lock record for \<open>k\<close> exists, the isolation level is snapshot isolation and
  the lock is visible (\<open>lock.ts \<le> s\<close> and \<open>lock.ts\<close> not among the resolved locks).
  Otherwise it walks the write records of \<open>k\<close>, which are in descending order of
  \<open>commit_ts\<close>, skips \<open>Rollback\<close> and \<open>Lock\<close> records, and returns the value of the
  first \<open>Put\<close> with \<open>commit_ts \<le> s\<close>, not-found for the first \<open>Delete\<close> with
  \<open>commit_ts \<le> s\<close>, and not-found when there is no such record.
\<close>

theorem Get_spec:
  assumes "wf_db d"
  shows "Get d k s isoLevel resolved =
           (case lockOf d k of
              Some l \<Rightarrow>
                if isoLevel = IsolationLevel_SI \<and> l_startTS l \<le> s \<and> l_startTS l \<notin> set resolved
                then Inl (ErrLocked k l)
                else Inr (firstVisible s (writesOf d k))
            | None \<Rightarrow> Inr (firstVisible s (writesOf d k)))
         \<and> sorted_wrt (\<lambda>a b. v_commitTS b < v_commitTS a) (writesOf d k)"
proof
  have loop: "getValueLoop k s (valuesIter d k) = Inr (firstVisible s (writesOf d k))"
    using getValueLoop_after[OF after_valuesIter[OF assms], of k s]
    by (simp add: writesOf_valuesIter)
  show "Get d k s isoLevel resolved =
           (case lockOf d k of
              Some l \<Rightarrow>
                if isoLevel = IsolationLevel_SI \<and> l_startTS l \<le> s \<and> l_startTS l \<notin> set resolved
                then Inl (ErrLocked k l)
                else Inr (firstVisible s (writesOf d k))
            | None \<Rightarrow> Inr (firstVisible s (writesOf d k)))"
    by (cases "lockOf d k")
       (simp_all add: Get_def mvcc_getValue_def getValue_def seek_lock[OF assms] loop
          check_def lockErr_def)
next
  show "sorted_wrt (\<lambda>a b. v_commitTS b < v_commitTS a) (writesOf d k)"
    by (rule writesOf_descending[OF assms])
qed

theorem Get_spec_witness:
  "wf_db exDb
   \<and> Get exDb [1] 6 IsolationLevel_SI [] = Inr (Some [42])
   \<and> Get exDb [1] 10 IsolationLevel_SI [] = Inl (ErrLocked [1] exLock)
   \<and> Get exDb [1] 10 IsolationLevel_SI [7] = Inr (Some [42])
   \<and> Get exDb [1] 4 IsolationLevel_SI [] = Inr (Some [41])"
proof -
  have g1: "Get exDb [1] 6 IsolationLevel_SI [] = Inr (Some [42])"
    using Get_spec[OF wf_exDb, of "[1]" 6 IsolationLevel_SI "[]"]
    by (simp add: exDb_def exLock_def firstVisible_def lockVer_def)
  have g2: "Get exDb [1] 10 IsolationLevel_SI [] = Inl (ErrLocked [1] exLock)"
    using Get_spec[OF wf_exDb, of "[1]" 10 IsolationLevel_SI "[]"]
    by (simp add: exDb_def exLock_def firstVisible_def lockVer_def)
  have g3: "Get exDb [1] 10 IsolationLevel_SI [7] = Inr (Some [42])"
    using Get_spec[OF wf_exDb, of "[1]" 10 IsolationLevel_SI "[7]"]
    by (simp add: exDb_def exLock_def firstVisible_def lockVer_def)
  have g4: "Get exDb [1] 4 IsolationLevel_SI [] = Inr (Some [41])"
    using Get_spec[OF wf_exDb, of "[1]" 4 IsolationLevel_SI "[]"]
    by (simp add: exDb_def exLock_def firstVisible_def lockVer_def)
  from wf_exDb g1 g2 g3 g4 show ?thesis by simp
qed


subsection \<open>Committing a key\<close>

lemma getTxnCommitInfo_after:
  "after k it \<Longrightarrow>
     getTxnCommitInfo it k s = Inr (find (\<lambda>v. v_startTS v = s) (writesOf it k))"
proof (induction it)
  case Nil
  then show ?case by (simp add: getTxnCommitInfo.simps)
next
  case (Cons e rest)
  note vd = valueDecode_after[OF Cons.prems]
  have ih: "getTxnCommitInfo rest k s = Inr (find (\<lambda>v. v_startTS v = s) (writesOf rest k))"
    using Cons.IH after_tl[OF Cons.prems] .
  show ?case
  proof (cases "writesOf (e # rest) k")
    case Nil
    with vd show ?thesis
      by (subst getTxnCommitInfo.simps) simp
  next
    case (Cons v ws)
    with vd have d: "valueDecode k (e # rest) = Inr (Some v, rest)" and w: "writesOf rest k = ws"
      by simp_all
    show ?thesis
      by (subst getTxnCommitInfo.simps) (simp add: d w ih Cons)
  qed
qed

lemma getTxnCommitInfo_seek:
  assumes "wf_db d"
  shows "getTxnCommitInfo (valuesIter d k) k s = Inr (find (\<lambda>v. v_startTS v = s) (writesOf d k))"
  using getTxnCommitInfo_after[OF after_valuesIter[OF assms], of k s]
  by (simp add: writesOf_valuesIter)



text \<open>
  C2. On a well-formed store, \<open>Commit\<close> on a key \<open>k\<close>: when the lock on \<open>k\<close> is missing
  or has another start timestamp, the first write record of \<open>k\<close> with this start
  timestamp decides: a record that is not a \<open>Rollback\<close> makes the commit succeed with
  the store unchanged, a \<open>Rollback\<close> record or no record gives the retryable error
  "txn not found".  When the lock has this start timestamp and
  \<open>commit_ts < lock.min_commit_ts\<close>, the error is \<open>CommitTsExpired\<close> with the start
  timestamp, the attempted commit timestamp, the key and the lock's \<open>min_commit_ts\<close>.
  Otherwise a write record of the type of the lock's operation is put at \<open>commit_ts\<close>
  and then the lock slot is deleted.
\<close>

theorem Commit_key:
  assumes "wf_db d"
  shows "Commit d [k] startTS commitTS =
           (case lockOf d k of
              Some l \<Rightarrow>
                if l_startTS l = startTS then
                  (if commitTS < l_minCommitTS l
                   then (Some (ErrCommitTSExpired startTS commitTS k (l_minCommitTS l)), d)
                   else (None,
                         dbDelete (k, lockVer)
                           (dbPut (k, commitTS)
                              (ValueRec \<lparr>v_valueType = writeTypeOf (l_op l), v_startTS = startTS,
                                          v_commitTS = commitTS, v_value = l_value l\<rparr>) d)))
                else (committedBefore d k startTS, d)
            | None \<Rightarrow> (committedBefore d k startTS, d))"
proof (cases "lockOf d k")
  case None
  then show ?thesis
    by (simp add: Commit_def commitKey_def seek_lock[OF assms] getTxnCommitInfo_seek[OF assms]
          committedBefore_def dbWrite_def split: option.splits)
next
  case (Some l)
  then show ?thesis
    by (simp add: Commit_def commitKey_def seek_lock[OF assms] getTxnCommitInfo_seek[OF assms]
          committedBefore_def dbWrite_def commitLock_def writeTypeOf_def Let_def
          split: option.splits)
qed


theorem Commit_key_witness:
  "wf_db exDb
   \<and> Commit exDb [[1]] 7 9 =
       (None, [(([1], 9), ValueRec \<lparr>v_valueType = typePut, v_startTS = 7, v_commitTS = 9, v_value = [9]\<rparr>),
               (([1], 5), ValueRec \<lparr>v_valueType = typePut, v_startTS = 4, v_commitTS = 5, v_value = [42]\<rparr>),
               (([1], 3), ValueRec \<lparr>v_valueType = typeRollback, v_startTS = 3, v_commitTS = 3, v_value = []\<rparr>),
               (([1], 2), ValueRec \<lparr>v_valueType = typePut, v_startTS = 1, v_commitTS = 2, v_value = [41]\<rparr>)])
   \<and> Commit exDb [[1]] 7 7 = (Some (ErrCommitTSExpired 7 7 [1] 8), exDb)
   \<and> Commit exDb [[1]] 4 5 = (None, exDb)
   \<and> Commit exDb [[1]] 3 3 = (Some (ErrRetryable ''txn not found''), exDb)"
proof -
  have c1: "Commit exDb [[1]] 7 9 =
       (None, [(([1], 9), ValueRec \<lparr>v_valueType = typePut, v_startTS = 7, v_commitTS = 9, v_value = [9]\<rparr>),
               (([1], 5), ValueRec \<lparr>v_valueType = typePut, v_startTS = 4, v_commitTS = 5, v_value = [42]\<rparr>),
               (([1], 3), ValueRec \<lparr>v_valueType = typeRollback, v_startTS = 3, v_commitTS = 3, v_value = []\<rparr>),
               (([1], 2), ValueRec \<lparr>v_valueType = typePut, v_startTS = 1, v_commitTS = 2, v_value = [41]\<rparr>)])"
    using Commit_key[OF wf_exDb, of "[1]" 7 9]
    by (simp add: exDb_def exLock_def lockVer_def writeTypeOf_def dbDelete_def)
  have c2: "Commit exDb [[1]] 7 7 = (Some (ErrCommitTSExpired 7 7 [1] 8), exDb)"
    using Commit_key[OF wf_exDb, of "[1]" 7 7]
    by (simp add: exDb_def exLock_def lockVer_def)
  have c3: "Commit exDb [[1]] 4 5 = (None, exDb)"
    using Commit_key[OF wf_exDb, of "[1]" 4 5]
    by (simp add: exDb_def exLock_def lockVer_def committedBefore_def)
  have c4: "Commit exDb [[1]] 3 3 = (Some (ErrRetryable ''txn not found''), exDb)"
    using Commit_key[OF wf_exDb, of "[1]" 3 3]
    by (simp add: exDb_def exLock_def lockVer_def committedBefore_def)
  from wf_exDb c1 c2 c3 c4 show ?thesis by simp
qed


subsection \<open>Rolling back a key\<close>

lemma dbPut_mem: "(k, p) \<in> set (dbPut k p d)"
  by (induction d) auto

lemma writesOf_memI:
  "((k, ver), ValueRec v) \<in> set d \<Longrightarrow> ver \<noteq> lockVer \<Longrightarrow> v \<in> set (writesOf d k)"
  by (induction d) (auto split: payload.splits)

lemma writesOf_dbDelete_lock: "writesOf (dbDelete (k', lockVer) d) k = writesOf d k"
  unfolding dbDelete_def by (induction d) (auto split: payload.splits)

lemma lockOf_dbPut_value:
  "ver \<noteq> lockVer \<Longrightarrow> lockOf (dbPut (k', ver) (ValueRec v) d) k = lockOf d k"
  by (induction d) (auto split: payload.splits)

lemma find_Some_mem: "find P xs = Some x \<Longrightarrow> x \<in> set xs \<and> P x"
  by (induction xs) (auto split: if_splits)

lemma Rollback_key_eq:
  assumes "wf_db d"
  shows "Rollback d [k] startTS =
           (case lockOf d k of
              Some l \<Rightarrow>
                if l_startTS l = startTS
                then (None, dbDelete (k, lockVer)
                              (dbPut (k, startTS) (ValueRec (tombstone startTS)) d))
                else rollbackUnlocked d k startTS
            | None \<Rightarrow> rollbackUnlocked d k startTS)"
proof (cases "newIterator d (k, lockVer) = []")
  case True
  with newIterator_empty[OF True] show ?thesis
    by (simp add: Rollback_def rollbackKey_def rollbackUnlocked_def tombstone_def dbWrite_def)
next
  case False
  then show ?thesis
    using seek_lock[OF assms, of k]
    by (cases "lockOf d k")
       (auto simp: Rollback_def rollbackKey_def rollbackUnlocked_def tombstone_def dbWrite_def
          getTxnCommitInfo_seek[OF assms] rollbackLock_def writeRollback_def Let_def
          split: option.splits)
qed


text \<open>
  C3 (as amended). On a well-formed store, \<open>Rollback\<close> on a key \<open>k\<close>: when a lock on
  \<open>k\<close> with this start timestamp exists, a \<open>Rollback\<close> tombstone is put at version
  \<open>start_ts\<close> (with \<open>start_ts = commit_ts\<close>) and then the lock slot is deleted.
  Otherwise the first write record of \<open>k\<close> with this start timestamp decides: a record
  that is not a \<open>Rollback\<close> gives the error \<open>AlreadyCommitted\<close> and nothing is written,
  a \<open>Rollback\<close> record makes the call succeed with nothing written, and without such a
  record the tombstone is put at \<open>start_ts\<close>.  After a successful \<open>Rollback\<close> whose
  \<open>start_ts\<close> is not the version of the lock slot, \<open>k\<close> has a \<open>Rollback\<close> record of
  this start timestamp.
\<close>

theorem Rollback_key:
  assumes "wf_db d"
  shows "Rollback d [k] startTS =
           (case lockOf d k of
              Some l \<Rightarrow>
                if l_startTS l = startTS
                then (None, dbDelete (k, lockVer)
                              (dbPut (k, startTS) (ValueRec (tombstone startTS)) d))
                else rollbackUnlocked d k startTS
            | None \<Rightarrow> rollbackUnlocked d k startTS)
         \<and> (fst (Rollback d [k] startTS) = None \<and> startTS \<noteq> lockVer \<longrightarrow>
              (\<exists>v\<in>set (writesOf (snd (Rollback d [k] startTS)) k).
                  v_valueType v = typeRollback \<and> v_startTS v = startTS))"
proof (intro conjI impI)
  show eq: "Rollback d [k] startTS =
           (case lockOf d k of
              Some l \<Rightarrow>
                if l_startTS l = startTS
                then (None, dbDelete (k, lockVer)
                              (dbPut (k, startTS) (ValueRec (tombstone startTS)) d))
                else rollbackUnlocked d k startTS
            | None \<Rightarrow> rollbackUnlocked d k startTS)"
    by (rule Rollback_key_eq[OF assms])
  assume ok: "fst (Rollback d [k] startTS) = None \<and> startTS \<noteq> lockVer"
  then have nl: "startTS \<noteq> lockVer" by simp
  have put: "tombstone startTS \<in> set (writesOf (dbPut (k, startTS) (ValueRec (tombstone startTS)) d) k)"
    by (rule writesOf_memI[OF dbPut_mem nl])
  have t: "v_valueType (tombstone startTS) = typeRollback \<and> v_startTS (tombstone startTS) = startTS"
    by (simp add: tombstone_def)
  have un: "fst (rollbackUnlocked d k startTS) = None \<Longrightarrow>
        \<exists>v\<in>set (writesOf (snd (rollbackUnlocked d k startTS)) k).
                  v_valueType v = typeRollback \<and> v_startTS v = startTS"
  proof (cases "find (\<lambda>v. v_startTS v = startTS) (writesOf d k)")
    case None
    then show ?thesis using put t by (auto simp: rollbackUnlocked_def)
  next
    case (Some c)
    assume "fst (rollbackUnlocked d k startTS) = None"
    with Some have "v_valueType c = typeRollback" "snd (rollbackUnlocked d k startTS) = d"
      by (auto simp: rollbackUnlocked_def split: if_splits)
    with find_Some_mem[OF Some] show ?thesis by auto
  qed
  show "\<exists>v\<in>set (writesOf (snd (Rollback d [k] startTS)) k).
                  v_valueType v = typeRollback \<and> v_startTS v = startTS"
  proof (cases "\<exists>l. lockOf d k = Some l \<and> l_startTS l = startTS")
    case True
    then show ?thesis using eq put t by (auto simp: writesOf_dbDelete_lock)
  next
    case False
    then have "Rollback d [k] startTS = rollbackUnlocked d k startTS"
      using eq by (auto split: option.splits)
    with un ok show ?thesis by simp
  qed
qed


theorem Rollback_key_witness:
  "wf_db exDb
   \<and> Rollback exDb [[1]] 7 =
       (None, [(([1], 7), ValueRec (tombstone 7)),
               (([1], 5), ValueRec \<lparr>v_valueType = typePut, v_startTS = 4, v_commitTS = 5, v_value = [42]\<rparr>),
               (([1], 3), ValueRec \<lparr>v_valueType = typeRollback, v_startTS = 3, v_commitTS = 3, v_value = []\<rparr>),
               (([1], 2), ValueRec \<lparr>v_valueType = typePut, v_startTS = 1, v_commitTS = 2, v_value = [41]\<rparr>)])
   \<and> Rollback exDb [[1]] 3 = (None, exDb)
   \<and> Rollback exDb [[2]] 6 = (None, exDb @ [(([2], 6), ValueRec (tombstone 6))])"
proof -
  have r1: "Rollback exDb [[1]] 7 =
       (None, [(([1], 7), ValueRec (tombstone 7)),
               (([1], 5), ValueRec \<lparr>v_valueType = typePut, v_startTS = 4, v_commitTS = 5, v_value = [42]\<rparr>),
               (([1], 3), ValueRec \<lparr>v_valueType = typeRollback, v_startTS = 3, v_commitTS = 3, v_value = []\<rparr>),
               (([1], 2), ValueRec \<lparr>v_valueType = typePut, v_startTS = 1, v_commitTS = 2, v_value = [41]\<rparr>)])"
    using Rollback_key[OF wf_exDb, of "[1]" 7]
    by (simp add: exDb_def exLock_def lockVer_def dbDelete_def)
  have r2: "Rollback exDb [[1]] 3 = (None, exDb)"
    using Rollback_key[OF wf_exDb, of "[1]" 3]
    by (simp add: exDb_def exLock_def lockVer_def rollbackUnlocked_def)
  have r3: "Rollback exDb [[2]] 6 = (None, exDb @ [(([2], 6), ValueRec (tombstone 6))])"
    using Rollback_key[OF wf_exDb, of "[2]" 6]
    by (simp add: exDb_def exLock_def lockVer_def rollbackUnlocked_def)
  from wf_exDb r1 r2 r3 show ?thesis by simp
qed


text \<open>
  The claim as stated fails where the transaction is already committed: on the example
  store the lock of key \<open>[1]\<close> belongs to another transaction, and \<open>Rollback\<close> for
  start timestamp 4 returns \<open>AlreadyCommitted\<close> without writing a tombstone.
\<close>

theorem Rollback_key_counterexample:
  "lockOf exDb [1] = Some exLock \<and> l_startTS exLock \<noteq> 4
   \<and> Rollback exDb [[1]] 4 = (Some (ErrAlreadyCommitted 5), exDb)"
proof -
  have r: "Rollback exDb [[1]] 4 = (Some (ErrAlreadyCommitted 5), exDb)"
    using Rollback_key_eq[OF wf_exDb, of "[1]" 4]
    by (simp add: exDb_def exLock_def lockVer_def rollbackUnlocked_def)
  then show ?thesis by (simp add: exDb_def exLock_def)
qed


subsection \<open>Checking the status of a transaction that left no trace\<close>

lemma CheckTxnStatus_not_exist_eq:
  assumes "wf_db d"
    and "\<forall>l. lockOf d p = Some l \<longrightarrow> l_startTS l \<noteq> lockTS"
    and "find (\<lambda>v. v_startTS v = lockTS) (writesOf d p) = None"
  shows "CheckTxnStatus d p lockTS callerStartTS currentTS rollbackIfNotExist
             resolvingPessimisticLock
           = checkNotExist d p lockTS rollbackIfNotExist resolvingPessimisticLock"
proof (cases "newIterator d (p, lockVer) = []")
  case True
  then show ?thesis
    by (simp add: CheckTxnStatus_def checkNotExist_def dbWrite_def writeRollback_def
          tombstone_def Let_def)
next
  case False
  then show ?thesis
    using seek_lock[OF assms(1), of p] assms(2,3)
    by (cases "lockOf d p")
       (simp_all add: CheckTxnStatus_def checkNotExist_def dbWrite_def writeRollback_def
          tombstone_def Let_def getTxnCommitInfo_seek[OF assms(1)])
qed

text \<open>
  C4 (as amended). On a well-formed store, for a primary key \<open>p\<close> that has no lock with
  start timestamp \<open>lock_ts\<close> and no write record of that start timestamp:
  with \<open>rollback_if_not_exist\<close> and not \<open>resolving_pessimistic_lock\<close>, \<open>CheckTxnStatus\<close>
  writes a \<open>Rollback\<close> tombstone at \<open>lock_ts\<close> and returns \<open>(0, 0)\<close> with action
  \<open>LockNotExistRollback\<close>; with both flags it writes nothing and returns \<open>(0, 0)\<close> with
  action \<open>LockNotExistDoNothing\<close>; without \<open>rollback_if_not_exist\<close> it returns the
  \<open>TxnNotFound\<close> error.  When \<open>lock_ts\<close> is not the version of the lock slot, the lock
  on \<open>p\<close> is the same afterwards in each case.
\<close>

theorem CheckTxnStatus_not_exist:
  assumes "wf_db d"
    and "\<forall>l. lockOf d p = Some l \<longrightarrow> l_startTS l \<noteq> lockTS"
    and "find (\<lambda>v. v_startTS v = lockTS) (writesOf d p) = None"
  shows "CheckTxnStatus d p lockTS callerStartTS currentTS rollbackIfNotExist
             resolvingPessimisticLock
           = checkNotExist d p lockTS rollbackIfNotExist resolvingPessimisticLock
         \<and> (lockTS \<noteq> lockVer \<longrightarrow>
              lockOf (snd (CheckTxnStatus d p lockTS callerStartTS currentTS rollbackIfNotExist
                             resolvingPessimisticLock)) p = lockOf d p)"
  unfolding CheckTxnStatus_not_exist_eq[OF assms]
  by (simp add: checkNotExist_def lockOf_dbPut_value)

theorem CheckTxnStatus_not_exist_witness:
  "wf_db exDb
   \<and> CheckTxnStatus exDb [1] 6 20 30 True False
       = ((0, 0, Action_LockNotExistRollback, None),
          [(([1], lockVer), LockRec exLock),
           (([1], 6), ValueRec (tombstone 6)),
           (([1], 5), ValueRec \<lparr>v_valueType = typePut, v_startTS = 4, v_commitTS = 5, v_value = [42]\<rparr>),
           (([1], 3), ValueRec \<lparr>v_valueType = typeRollback, v_startTS = 3, v_commitTS = 3, v_value = []\<rparr>),
           (([1], 2), ValueRec \<lparr>v_valueType = typePut, v_startTS = 1, v_commitTS = 2, v_value = [41]\<rparr>)])
   \<and> CheckTxnStatus exDb [1] 6 20 30 False False
       = ((0, 0, Action_NoAction, Some (ErrTxnNotFound 6 [1])), exDb)"
proof -
  have h1: "\<forall>l. lockOf exDb [1] = Some l \<longrightarrow> l_startTS l \<noteq> 6"
    by (simp add: exDb_def exLock_def)
  have h2: "find (\<lambda>v. v_startTS v = 6) (writesOf exDb [1]) = None"
    by (simp add: exDb_def lockVer_def)
  have c1: "CheckTxnStatus exDb [1] 6 20 30 True False
       = ((0, 0, Action_LockNotExistRollback, None),
          [(([1], lockVer), LockRec exLock),
           (([1], 6), ValueRec (tombstone 6)),
           (([1], 5), ValueRec \<lparr>v_valueType = typePut, v_startTS = 4, v_commitTS = 5, v_value = [42]\<rparr>),
           (([1], 3), ValueRec \<lparr>v_valueType = typeRollback, v_startTS = 3, v_commitTS = 3, v_value = []\<rparr>),
           (([1], 2), ValueRec \<lparr>v_valueType = typePut, v_startTS = 1, v_commitTS = 2, v_value = [41]\<rparr>)])"
    using CheckTxnStatus_not_exist[OF wf_exDb h1 h2, of 20 30 True False]
    by (simp add: checkNotExist_def exDb_def lockVer_def)
  have c2: "CheckTxnStatus exDb [1] 6 20 30 False False
       = ((0, 0, Action_NoAction, Some (ErrTxnNotFound 6 [1])), exDb)"
    using CheckTxnStatus_not_exist[OF wf_exDb h1 h2, of 20 30 False False]
    by (simp add: checkNotExist_def)
  from wf_exDb c1 c2 show ?thesis by simp
qed

text \<open>
  The claim as stated fails when \<open>resolving_pessimistic_lock\<close> is set: on the example
  store, for \<open>lock_ts = 6\<close>, nothing is written and the action is
  \<open>LockNotExistDoNothing\<close>.
\<close>

theorem CheckTxnStatus_not_exist_counterexample:
  "lockOf exDb [1] = Some exLock \<and> l_startTS exLock \<noteq> 6
   \<and> find (\<lambda>v. v_startTS v = 6) (writesOf exDb [1]) = None
   \<and> CheckTxnStatus exDb [1] 6 20 30 True True
       = ((0, 0, Action_LockNotExistDoNothing, None), exDb)"
proof -
  have h1: "\<forall>l. lockOf exDb [1] = Some l \<longrightarrow> l_startTS l \<noteq> 6"
    by (simp add: exDb_def exLock_def)
  have h2: "find (\<lambda>v. v_startTS v = 6) (writesOf exDb [1]) = None"
    by (simp add: exDb_def lockVer_def)
  have c: "CheckTxnStatus exDb [1] 6 20 30 True True
       = ((0, 0, Action_LockNotExistDoNothing, None), exDb)"
    using CheckTxnStatus_not_exist_eq[OF wf_exDb h1 h2, of 20 30 True True]
    by (simp add: checkNotExist_def)
  from h2 c show ?thesis by (simp add: exDb_def exLock_def)
qed

subsection \<open>A failed prewrite leaves the store unchanged\<close>

lemma prewriteBody_no_panic:
  "length (req_IsPessimisticLock req) = 0 \<or> i < length (req_IsPessimisticLock req)
     \<Longrightarrow> prewriteBody d req i m \<noteq> Panicked"
  by (auto simp: prewriteBody_def Let_def split: option.splits sum.splits)

text \<open>
  With an empty flag list, or one at least as long as the mutations, \<open>Prewrite\<close>
  returns.
\<close>

lemma prewriteBody_flags_cover:
  assumes "length (req_IsPessimisticLock req) = 0
           \<or> length (req_Mutations req) \<le> length (req_IsPessimisticLock req)"
  shows "\<forall>j<length (req_Mutations req). prewriteBody d req j (req_Mutations req ! j) \<noteq> Panicked"
  using assms by (auto intro!: prewriteBody_no_panic)

lemma prewriteLoop_run:
  assumes "\<forall>j<length ms. prewriteBody d req (i + j) (ms ! j) \<noteq> Panicked"
  shows "prewriteLoop d req i ms batch errs anyError =
           Some (batch @ concat (map (\<lambda>j. stepOps (prewriteBody d req (i + j) (ms ! j)))
                                  [0..<length ms]),
                 errs @ concat (map (\<lambda>j. stepErrs (prewriteBody d req (i + j) (ms ! j)))
                                 [0..<length ms]),
                 anyError \<or> (\<exists>j<length ms. stepFailed (prewriteBody d req (i + j) (ms ! j))))"
  using assms
proof (induction ms arbitrary: i batch errs anyError)
  case Nil
  then show ?case by simp
next
  case (Cons m ms)
  have np: "prewriteBody d req i m \<noteq> Panicked"
    using Cons.prems[rule_format, of 0] by simp
  have rest: "\<forall>j<length ms. prewriteBody d req (Suc i + j) (ms ! j) \<noteq> Panicked"
    using Cons.prems[rule_format, of "Suc j" for j] by simp
  have upt: "[0..<length (m # ms)] = 0 # map Suc [0..<length ms]"
    by (simp add: upt_conv_Cons map_Suc_upt del: upt_Suc)
  note ih = Cons.IH[OF rest]
  show ?case
    unfolding upt using np
    by (cases "prewriteBody d req i m") (simp_all add: ih Ex_less_Suc2 comp_def)
qed

lemma prewriteLoop_panics:
  assumes "j < length ms" and "prewriteBody d req (i + j) (ms ! j) = Panicked"
  shows "prewriteLoop d req i ms batch errs anyError = None"
  using assms
proof (induction ms arbitrary: i j batch errs anyError)
  case Nil
  then show ?case by simp
next
  case (Cons m ms)
  show ?case
  proof (cases j)
    case 0
    with Cons.prems show ?thesis by simp
  next
    case (Suc j')
    with Cons.prems have "j' < length ms" and "prewriteBody d req (Suc i + j') (ms ! j') = Panicked"
      by simp_all
    from Cons.IH[OF this] show ?thesis
      by (cases "prewriteBody d req i m") simp_all
  qed
qed

text \<open>
  \<^verbatim>\<open>Prewrite\<close> returns exactly when no mutation reaches the index
  \<^verbatim>\<open>req.IsPessimisticLock[i]\<close> out of range; an empty flag list, or one at least as long
  as the mutations, is enough for that.
\<close>

lemma Prewrite_panics:
  assumes "j < length (req_Mutations req)"
    and "prewriteBody d req j (req_Mutations req ! j) = Panicked"
  shows "Prewrite req d = None"
  using prewriteLoop_panics[of j "req_Mutations req" d req 0] assms
  by (simp add: Prewrite_def)

lemma Prewrite_run:
  assumes "\<forall>j<length (req_Mutations req). prewriteBody d req j (req_Mutations req ! j) \<noteq> Panicked"
  shows "Prewrite req d =
           Some (concat (map stepErrs (prewriteBodies d req)),
                 if (\<exists>r\<in>set (prewriteBodies d req). stepFailed r) then d
                 else dbWrite d (concat (map stepOps (prewriteBodies d req))))"
proof -
  have any: "(\<exists>j<length (req_Mutations req). stepFailed (prewriteBody d req j (req_Mutations req ! j)))
             = (\<exists>r\<in>set (prewriteBodies d req). stepFailed r)"
    by (auto simp: prewriteBodies_def)
  from assms have "\<forall>j<length (req_Mutations req).
                     prewriteBody d req (0 + j) (req_Mutations req ! j) \<noteq> Panicked"
    by simp
  from prewriteLoop_run[OF this, of "[]" "[]" False] any show ?thesis
    by (simp add: Prewrite_def prewriteBodies_def comp_def)
qed

text \<open>
  C10 (as amended). For a request none of whose mutations reaches the index
  \<^verbatim>\<open>req.IsPessimisticLock[i]\<close> out of range: if the mutation at some index produces an
  error, \<open>Prewrite\<close> returns and leaves the store as it was, so no lock record of the
  request is installed.  The error list it returns has, for each mutation in order, the
  error of the mutation, or \<^verbatim>\<open>nil\<close> for a mutation without error, or no entry for a
  \<open>CheckNotExists\<close> that passed; the error of the failing mutation stands in it after
  the entries of the mutations before it.
\<close>

theorem Prewrite_error_atomic:
  assumes "\<forall>j<length (req_Mutations req). prewriteBody d req j (req_Mutations req ! j) \<noteq> Panicked"
    and "i < length (req_Mutations req)"
    and "prewriteBody d req i (req_Mutations req ! i) = Failed e"
  shows "Prewrite req d =
           Some (concat (map stepErrs (take i (prewriteBodies d req)))
                   @ Some e # concat (map stepErrs (drop (Suc i) (prewriteBodies d req))),
                 d)"
proof -
  have len: "i < length (prewriteBodies d req)"
    using assms(2) by (simp add: prewriteBodies_def)
  have at: "prewriteBodies d req ! i = Failed e"
    using assms(2,3) by (simp add: prewriteBodies_def)
  have split: "prewriteBodies d req
                 = take i (prewriteBodies d req) @ Failed e # drop (Suc i) (prewriteBodies d req)"
    using id_take_nth_drop[OF len] at by simp
  have "Failed e \<in> set (prewriteBodies d req)"
    using len at nth_mem by fastforce
  then have failed: "\<exists>r\<in>set (prewriteBodies d req). stepFailed r"
    by (rule bexI[rotated]) simp
  have "concat (map stepErrs (prewriteBodies d req))
          = concat (map stepErrs (take i (prewriteBodies d req)))
              @ Some e # concat (map stepErrs (drop (Suc i) (prewriteBodies d req)))"
    by (subst split) simp
  with Prewrite_run[OF assms(1)] failed show ?thesis by simp
qed

text \<open>
  The example request fails on the key \<open>[1]\<close>, which the transaction that started at 7
  has locked; the lock of the key \<open>[2]\<close> is not installed.
\<close>

theorem Prewrite_error_atomic_witness:
  "prewriteBody exDb exReq 0 (req_Mutations exReq ! 0) \<noteq> Panicked
   \<and> 1 < length (req_Mutations exReq)
   \<and> prewriteBody exDb exReq 1 (req_Mutations exReq ! 1) = Failed (ErrLocked [1] exLock)
   \<and> Prewrite exReq exDb = Some ([None, Some (ErrLocked [1] exLock)], exDb)"
proof -
  have h0: "\<forall>j<length (req_Mutations exReq).
              prewriteBody exDb exReq j (req_Mutations exReq ! j) \<noteq> Panicked"
    by (simp add: prewriteBody_no_panic exReq_def)
  have h2: "1 < length (req_Mutations exReq)"
    by (simp add: exReq_def)
  have h3: "prewriteBody exDb exReq 1 (req_Mutations exReq ! 1) = Failed (ErrLocked [1] exLock)"
    by (simp add: prewriteBody_def prewriteMutation_def exReq_def exDb_def newIterator_def
          lockVer_def exLock_def lockErr_def Let_def)
  have b0: "\<exists>ops. prewriteBody exDb exReq 0 (req_Mutations exReq ! 0) = Wrote ops"
    by (simp add: prewriteBody_def prewriteMutation_def exReq_def exDb_def newIterator_def
          lockVer_def exLock_def lockErr_def checkConflictValue_def prewriteLock_def Let_def)
  have bodies: "take 1 (prewriteBodies exDb exReq)
                  = [prewriteBody exDb exReq 0 (req_Mutations exReq ! 0)]"
               "drop (Suc 1) (prewriteBodies exDb exReq) = []"
    by (simp_all add: prewriteBodies_def exReq_def upt_conv_Cons)
  from b0 have np: "prewriteBody exDb exReq 0 (req_Mutations exReq ! 0) \<noteq> Panicked"
    by auto
  from Prewrite_error_atomic[OF h0 h2 h3] b0 bodies
  have "Prewrite exReq exDb = Some ([None, Some (ErrLocked [1] exLock)], exDb)"
    by auto
  with np h2 h3 show ?thesis by simp
qed

text \<open>
  The claim as stated fails for a request whose \<open>IsPessimisticLock\<close> list is shorter
  than its mutations: the first mutation meets the lock of another transaction and
  produces \<open>Locked\<close>, the second reaches the index 1 of a list of one flag, and
  \<open>Prewrite\<close> panics instead of returning the error list.
\<close>

theorem Prewrite_error_atomic_counterexample:
  "prewriteBody exDb exReqShort 0 (req_Mutations exReqShort ! 0) = Failed (ErrLocked [1] exLock)
   \<and> prewriteBody exDb exReqShort 1 (req_Mutations exReqShort ! 1) = Panicked
   \<and> Prewrite exReqShort exDb = None"
proof -
  have b0: "prewriteBody exDb exReqShort 0 (req_Mutations exReqShort ! 0)
              = Failed (ErrLocked [1] exLock)"
    by (simp add: prewriteBody_def prewriteMutation_def exReqShort_def exReq_def exDb_def
          newIterator_def lockVer_def exLock_def lockErr_def Let_def)
  have b1: "prewriteBody exDb exReqShort 1 (req_Mutations exReqShort ! 1) = Panicked"
    by (simp add: prewriteBody_def exReqShort_def exReq_def Let_def)
  have "Prewrite exReqShort exDb = None"
    by (rule Prewrite_panics[of 1, OF _ b1]) (simp add: exReqShort_def)
  with b0 b1 show ?thesis by simp
qed

subsection \<open>Replaying a prewrite request\<close>

lemma prewriteBody_step:
  assumes "req_IsPessimisticLock req = [] \<or> i < length (req_IsPessimisticLock req)"
  shows "prewriteBody d req i m =
           prewriteStep d req (m, req_IsPessimisticLock req \<noteq> [] \<and> req_IsPessimisticLock req ! i)"
  using assms
  by (auto simp: prewriteBody_def prewriteStep_def Let_def split: option.splits sum.splits)

lemma prewriteStep_not_Panicked: "prewriteStep d req z \<noteq> Panicked"
  by (auto simp: prewriteStep_def Let_def split: option.splits sum.splits)

lemma prewriteLoop_zip:
  assumes "length fs = length ms"
    and "\<forall>j<length ms. (req_IsPessimisticLock req = [] \<or> i + j < length (req_IsPessimisticLock req))
           \<and> fs ! j = (req_IsPessimisticLock req \<noteq> [] \<and> req_IsPessimisticLock req ! (i + j))"
  shows "prewriteLoop d req i ms batch errs anyError =
           Some (batch @ concat (map (\<lambda>z. stepOps (prewriteStep d req z)) (zip ms fs)),
                 errs @ concat (map (\<lambda>z. stepErrs (prewriteStep d req z)) (zip ms fs)),
                 anyError \<or> (\<exists>z\<in>set (zip ms fs). stepFailed (prewriteStep d req z)))"
  using assms
proof (induction ms arbitrary: fs i batch errs anyError)
  case Nil
  then show ?case by simp
next
  case (Cons m ms)
  then obtain f fs' where fs: "fs = f # fs'" and len: "length fs' = length ms"
    by (cases fs) auto
  have f0: "(req_IsPessimisticLock req = [] \<or> i < length (req_IsPessimisticLock req))
            \<and> f = (req_IsPessimisticLock req \<noteq> [] \<and> req_IsPessimisticLock req ! i)"
    using Cons.prems(2)[rule_format, of 0] fs by simp
  have rest: "\<forall>j<length ms. (req_IsPessimisticLock req = [] \<or> Suc i + j < length (req_IsPessimisticLock req))
           \<and> fs' ! j = (req_IsPessimisticLock req \<noteq> [] \<and> req_IsPessimisticLock req ! (Suc i + j))"
  proof (intro allI impI)
    fix j assume "j < length ms"
    then show "(req_IsPessimisticLock req = [] \<or> Suc i + j < length (req_IsPessimisticLock req))
           \<and> fs' ! j = (req_IsPessimisticLock req \<noteq> [] \<and> req_IsPessimisticLock req ! (Suc i + j))"
      using Cons.prems(2)[rule_format, of "Suc j"] fs by simp
  qed
  have body: "prewriteBody d req i m = prewriteStep d req (m, f)"
    using prewriteBody_step[of req i d m] f0 by simp
  note ih = Cons.IH[OF len rest]
  show ?case
    using prewriteStep_not_Panicked[of d req "(m, f)"]
    by (cases "prewriteStep d req (m, f)") (simp_all add: fs body ih)
qed

lemma Prewrite_zip:
  assumes "req_IsPessimisticLock req = []
           \<or> length (req_IsPessimisticLock req) = length (req_Mutations req)"
  shows "Prewrite req d =
           Some (concat (map (\<lambda>z. stepErrs (prewriteStep d req z))
                          (zip (req_Mutations req) (flagsOf req))),
                 if (\<exists>z\<in>set (zip (req_Mutations req) (flagsOf req)). stepFailed (prewriteStep d req z))
                 then d
                 else dbWrite d (concat (map (\<lambda>z. stepOps (prewriteStep d req z))
                                          (zip (req_Mutations req) (flagsOf req)))))"
proof -
  have len: "length (flagsOf req) = length (req_Mutations req)"
    using assms by (auto simp: flagsOf_def)
  have idx: "\<forall>j<length (req_Mutations req).
           (req_IsPessimisticLock req = [] \<or> 0 + j < length (req_IsPessimisticLock req))
           \<and> flagsOf req ! j = (req_IsPessimisticLock req \<noteq> [] \<and> req_IsPessimisticLock req ! (0 + j))"
    using assms by (auto simp: flagsOf_def)
  show ?thesis
    unfolding Prewrite_def prewriteLoop_zip[OF len idx] by simp
qed

lemma succeeded_concat_stepErrs:
  "succeeded (concat (map (\<lambda>z. stepErrs (f z)) zs)) = (\<forall>z\<in>set zs. \<not> stepFailed (f z))"
proof (induction zs)
  case Nil
  then show ?case by (simp add: succeeded_def)
next
  case (Cons z zs)
  then show ?case by (cases "f z") (simp_all add: succeeded_def)
qed

subsection \<open>Lock puts\<close>

lemma lockOf_dbPut_lock:
  "lockOf (dbPut (k', lockVer) (LockRec L) d) k = (if k = k' then Some L else lockOf d k)"
  by (induction d) (auto split: payload.splits)

lemma writesOf_dbPut_lock:
  "writesOf (dbPut (k', lockVer) (LockRec L) d) k = writesOf d k"
  by (induction d) (auto split: payload.splits)

lemma set_dbPut: "set (dbPut k p d) \<subseteq> insert (k, p) (set d)"
  by (induction d) (auto split: if_splits)

lemma sorted_dbPut:
  "sorted_wrt mvccLess (map fst d) \<Longrightarrow> sorted_wrt mvccLess (map fst (dbPut k p d))"
proof (induction d)
  case Nil
  then show ?case by simp
next
  case (Cons e rest)
  obtain k' p' where e: "e = (k', p')" by (cases e) auto
  have gt: "\<forall>x\<in>set rest. mvccLess k' (fst x)" and sr: "sorted_wrt mvccLess (map fst rest)"
    using Cons.prems e by auto
  consider (eq) "k = k'" | (lt) "k \<noteq> k'" "mvccLess k k'" | (gt) "k \<noteq> k'" "\<not> mvccLess k k'"
    by blast
  then show ?case
  proof cases
    case eq
    with gt sr e show ?thesis by simp
  next
    case lt
    have "\<forall>x\<in>set rest. mvccLess k (fst x)"
      using gt lt(2) mvccLess_trans by blast
    with lt gt sr e show ?thesis by simp
  next
    case gt
    then have kk: "mvccLess k' k" using mvccLess_total by blast
    have "\<forall>x\<in>set (dbPut k p rest). mvccLess k' (fst x)"
    proof
      fix x assume "x \<in> set (dbPut k p rest)"
      then have "x = (k, p) \<or> x \<in> set rest" using set_dbPut by fastforce
      then show "mvccLess k' (fst x)" using kk \<open>\<forall>x\<in>set rest. mvccLess k' (fst x)\<close> by auto
    qed
    with gt Cons.IH[OF sr] e show ?thesis by simp
  qed
qed

lemma wf_dbPut:
  assumes "wf_db d" "typed_entry (k, p)"
  shows "wf_db (dbPut k p d)"
proof -
  have "list_all typed_entry (dbPut k p d)"
    using assms set_dbPut[of k p d] by (auto simp: wf_db_def list_all_iff)
  with sorted_dbPut[of d k p] assms(1) show ?thesis by (simp add: wf_db_def)
qed

lemma isLockPut_cases:
  assumes "isLockPut op"
  obtains k L where "op = BatchPut (k, lockVer) (LockRec L)"
  using assms by (cases op rule: isLockPut.cases) auto

lemma dbWrite_lockPuts:
  assumes "list_all isLockPut batch" "wf_db d"
  shows "wf_db (dbWrite d batch)
       \<and> writesOf (dbWrite d batch) k = writesOf d k
       \<and> lockOf (dbWrite d batch) k = (case putAt batch k of Some L \<Rightarrow> Some L | None \<Rightarrow> lockOf d k)"
  using assms
proof (induction batch arbitrary: d)
  case Nil
  then show ?case by (simp add: dbWrite_def)
next
  case (Cons op ops)
  have "isLockPut op" using Cons.prems(1) by simp
  then obtain k' L where op: "op = BatchPut (k', lockVer) (LockRec L)"
    by (rule isLockPut_cases)
  have wf1: "wf_db (dbPut (k', lockVer) (LockRec L) d)"
    by (rule wf_dbPut[OF Cons.prems(2)]) simp
  have rest: "list_all isLockPut ops" using Cons.prems(1) by simp
  from Cons.IH[OF rest wf1] show ?case
    by (auto simp: dbWrite_def op lockOf_dbPut_lock writesOf_dbPut_lock split: option.splits)
qed

subsection \<open>The loop body reads one key only\<close>

lemma after_tl_writes:
  assumes "after k it" "writesOf it k = w # ws"
  shows "after k (tl it) \<and> writesOf (tl it) k = ws \<and> valueDecode k it = Inr (Some w, tl it)"
proof -
  from assms(2) obtain e rest where it: "it = e # rest" by (cases it) auto
  from valueDecode_after[OF assms(1)] assms(2) after_tl[of k e rest] assms(1) it
  show ?thesis by simp
qed

lemma after_no_writes:
  assumes "after k it" "writesOf it k = []"
  shows "valueDecode k it = Inr (None, it)"
  using valueDecode_after[OF assms(1)] assms(2) by simp

lemma checkConflictLoop_cong:
  assumes "after (m_Key m) it" "after (m_Key m) it'"
    and "writesOf it (m_Key m) = writesOf it' (m_Key m)"
  shows "checkConflictLoop m s lvl nca v it gv ne cr ret
           = checkConflictLoop m s lvl nca v it' gv ne cr ret"
  using assms
proof (induction "writesOf it (m_Key m)" arbitrary: it it' v gv ne cr ret)
  case Nil
  have d1: "valueDecode (m_Key m) it = Inr (None, it)"
    using after_no_writes[OF Nil.prems(1)] Nil.hyps by simp
  have d2: "valueDecode (m_Key m) it' = Inr (None, it')"
    using after_no_writes[OF Nil.prems(2)] Nil.hyps Nil.prems(3) by simp
  show ?case
    by (subst checkConflictLoop.simps[of m s lvl nca v it],
        subst checkConflictLoop.simps[of m s lvl nca v it'])
       (simp add: d1 d2 Let_def)
next
  case (Cons w ws)
  have w1: "writesOf it (m_Key m) = w # ws" using Cons.hyps(2) by simp
  have w2: "writesOf it' (m_Key m) = w # ws" using Cons.hyps(2) Cons.prems(3) by simp
  note a1 = after_tl_writes[OF Cons.prems(1) w1]
  note a2 = after_tl_writes[OF Cons.prems(2) w2]
  have ih: "checkConflictLoop m s lvl nca v' (tl it) gv' ne' cr' ret'
              = checkConflictLoop m s lvl nca v' (tl it') gv' ne' cr' ret'" for v' gv' ne' cr' ret'
    by (rule Cons.hyps(1)) (use a1 a2 in simp_all)
  show ?case
    by (subst checkConflictLoop.simps[of m s lvl nca v it],
        subst checkConflictLoop.simps[of m s lvl nca v it'])
       (simp add: a1 a2 Let_def ih)
qed

lemma checkConflictValue_cong:
  assumes "after (m_Key m) it" "after (m_Key m) it'"
    and "writesOf it (m_Key m) = writesOf it' (m_Key m)"
  shows "checkConflictValue it m f s g lvl = checkConflictValue it' m f s g lvl"
proof (cases "writesOf it (m_Key m)")
  case Nil
  have d1: "valueDecode (m_Key m) it = Inr (None, it)"
    using after_no_writes[OF assms(1) Nil] .
  have d2: "valueDecode (m_Key m) it' = Inr (None, it')"
    using after_no_writes[OF assms(2)] Nil assms(3) by simp
  show ?thesis by (simp add: checkConflictValue_def d1 d2)
next
  case (Cons w ws)
  note a1 = after_tl_writes[OF assms(1) Cons]
  have w2: "writesOf it' (m_Key m) = w # ws" using Cons assms(3) by simp
  note a2 = after_tl_writes[OF assms(2) w2]
  have l: "checkConflictLoop m s lvl nca v (tl it) gv ne cr ret
              = checkConflictLoop m s lvl nca v (tl it') gv ne cr ret" for v nca gv ne cr ret
    by (rule checkConflictLoop_cong) (use a1 a2 in simp_all)
  show ?thesis by (simp add: checkConflictValue_def a1 a2 Let_def l)
qed

lemma mvcc_getValue_view:
  assumes "wf_db d"
  shows "mvcc_getValue d k s isoLevel resolved =
           (case lockOf d k of
              Some l \<Rightarrow>
                if isoLevel = IsolationLevel_SI \<and> l_startTS l \<le> s \<and> l_startTS l \<notin> set resolved
                then Inl (ErrLocked k l)
                else Inr (firstVisible s (writesOf d k))
            | None \<Rightarrow> Inr (firstVisible s (writesOf d k)))"
proof -
  have loop: "getValueLoop k s (valuesIter d k) = Inr (firstVisible s (writesOf d k))"
    using getValueLoop_after[OF after_valuesIter[OF assms], of k s]
    by (simp add: writesOf_valuesIter)
  show ?thesis
    by (cases "lockOf d k")
       (simp_all add: mvcc_getValue_def getValue_def seek_lock[OF assms] loop
          check_def lockErr_def)
qed

lemma prewriteMutation_view:
  assumes "wf_db d"
  shows "prewriteMutation d m s p ttl tx b mc lvl =
     (case lockOf d (m_Key m) of
        Some lock \<Rightarrow>
          if l_startTS lock \<noteq> s
          then Inl (lockErr (if b then lock\<lparr>l_ttl := 0\<rparr> else lock) (m_Key m))
          else if l_op lock \<noteq> Op_PessimisticLock then Inr []
          else (case checkConflictValue (valuesIter d (m_Key m)) m s s False lvl of
                  Inl err \<Rightarrow> Inl err
                | Inr _ \<Rightarrow> Inr (prewriteLock m s p (if ttl < l_ttl lock then l_ttl lock else ttl) tx
                                  (if mc < l_minCommitTS lock then l_minCommitTS lock else mc)))
      | None \<Rightarrow>
          if b then Inl (ErrAbort ''pessimistic lock not found'')
          else (case checkConflictValue (valuesIter d (m_Key m)) m s s False lvl of
                  Inl err \<Rightarrow> Inl err
                | Inr _ \<Rightarrow> Inr (prewriteLock m s p ttl tx mc)))"
  by (cases "lockOf d (m_Key m)")
     (simp_all add: prewriteMutation_def seek_lock[OF assms] Let_def)

lemma prewriteStep_cong:
  assumes "wf_db d" "wf_db d'"
    and "lockOf d (m_Key (fst z)) = lockOf d' (m_Key (fst z))"
    and "writesOf d (m_Key (fst z)) = writesOf d' (m_Key (fst z))"
  shows "prewriteStep d req z = prewriteStep d' req z"
proof -
  have c: "checkConflictValue (valuesIter d (m_Key (fst z))) (fst z) f s g lvl
         = checkConflictValue (valuesIter d' (m_Key (fst z))) (fst z) f s g lvl" for f s g lvl
    by (rule checkConflictValue_cong)
       (simp_all add: after_valuesIter assms writesOf_valuesIter)
  have g: "mvcc_getValue d (m_Key (fst z)) s isoLevel resolved
         = mvcc_getValue d' (m_Key (fst z)) s isoLevel resolved" for s isoLevel resolved
    unfolding mvcc_getValue_view[OF assms(1)] mvcc_getValue_view[OF assms(2)] assms(3,4)
    by (rule refl)
  have pm: "prewriteMutation d (fst z) s p ttl tx b mc lvl
          = prewriteMutation d' (fst z) s p ttl tx b mc lvl" for s p ttl tx b mc lvl
    unfolding prewriteMutation_view[OF assms(1)] prewriteMutation_view[OF assms(2)] assms(3,4) c
    by (rule refl)
  show ?thesis
    unfolding prewriteStep_def Let_def g pm by (rule refl)
qed

subsection \<open>Replaying a mutation whose lock is already installed\<close>

lemma prewriteLock_eq:
  "prewriteLock m s p t x c =
     [BatchPut (m_Key m, lockVer)
        (LockRec \<lparr>l_startTS = s, l_primary = p, l_value = m_Value m,
                  l_op = (if m_Op m = Op_Insert then Op_Put else m_Op m), l_ttl = t,
                  l_forUpdateTS = 0, l_txnSize = x,
                  l_minCommitTS = (if p = m_Key m then c else 0)\<rparr>)]"
  by (simp add: prewriteLock_def Let_def)

lemma prewriteStep_wrote:
  assumes "wf_db d" "prewriteStep d req (m, b) = Wrote ops" "ops \<noteq> []"
  shows "\<exists>ttl1 mc1. ops = prewriteLock m (req_StartVersion req) (req_PrimaryLock req) ttl1
                            (req_TxnSize req) mc1
           \<and> req_LockTtl req \<le> ttl1 \<and> req_MinCommitTs req \<le> mc1
           \<and> (\<exists>r. checkConflictValue (valuesIter d (m_Key m)) m (req_StartVersion req)
                       (req_StartVersion req) False (req_AssertionLevel req) = Inr r)
           \<and> m_Op m \<noteq> Op_CheckNotExists"
proof -
  have pm: "prewriteMutation d m (req_StartVersion req) (req_PrimaryLock req) (req_LockTtl req)
              (req_TxnSize req) b (req_MinCommitTs req) (req_AssertionLevel req) = Inr ops"
    and nc: "m_Op m \<noteq> Op_CheckNotExists"
    using assms(2)
    by (auto simp: prewriteStep_def Let_def split: option.splits sum.splits if_splits)
  show ?thesis
  proof (cases "lockOf d (m_Key m)")
    case None
    with pm assms(3) nc show ?thesis
      unfolding prewriteMutation_view[OF assms(1)]
      by (auto split: if_splits sum.splits)
  next
    case (Some lock)
    with pm assms(3) have
      "ops = prewriteLock m (req_StartVersion req) (req_PrimaryLock req)
               (if req_LockTtl req < l_ttl lock then l_ttl lock else req_LockTtl req)
               (req_TxnSize req)
               (if req_MinCommitTs req < l_minCommitTS lock then l_minCommitTS lock
                else req_MinCommitTs req)"
      and "\<exists>r. checkConflictValue (valuesIter d (m_Key m)) m (req_StartVersion req)
                       (req_StartVersion req) False (req_AssertionLevel req) = Inr r"
      unfolding prewriteMutation_view[OF assms(1)]
      by (auto split: if_splits sum.splits)
    with nc show ?thesis
      by (intro exI[of _ "if req_LockTtl req < l_ttl lock then l_ttl lock else req_LockTtl req"]
                exI[of _ "if req_MinCommitTs req < l_minCommitTS lock then l_minCommitTS lock
                          else req_MinCommitTs req"]) auto
  qed
qed

lemma prewriteStep_replay:
  assumes "wf_db d" "wf_db dx"
    and "prewriteStep d req (m, b) = Wrote ops"
    and "ops = [BatchPut (m_Key m, lockVer) (LockRec L)]"
    and "lockOf dx (m_Key m) = Some L"
    and "writesOf dx (m_Key m) = writesOf d (m_Key m)"
    and "req_ForUpdateTs req \<noteq> 0 \<or> m_Op m \<noteq> Op_Insert"
  shows "prewriteStep dx req (m, b) = Wrote [] \<or> prewriteStep dx req (m, b) = Wrote ops"
proof -
  have ne: "ops \<noteq> []" using assms(4) by simp
  from prewriteStep_wrote[OF assms(1,3) ne] obtain ttl1 mc1 r where
    o: "ops = prewriteLock m (req_StartVersion req) (req_PrimaryLock req) ttl1
                            (req_TxnSize req) mc1"
    and t: "req_LockTtl req \<le> ttl1" and c: "req_MinCommitTs req \<le> mc1"
    and ccv: "checkConflictValue (valuesIter d (m_Key m)) m (req_StartVersion req)
                       (req_StartVersion req) False (req_AssertionLevel req) = Inr r"
    and nc: "m_Op m \<noteq> Op_CheckNotExists"
    by blast
  have L: "L = \<lparr>l_startTS = req_StartVersion req, l_primary = req_PrimaryLock req,
                l_value = m_Value m,
                l_op = (if m_Op m = Op_Insert then Op_Put else m_Op m), l_ttl = ttl1,
                l_forUpdateTS = 0, l_txnSize = req_TxnSize req,
                l_minCommitTS = (if req_PrimaryLock req = m_Key m then mc1 else 0)\<rparr>"
    using o assms(4) by (simp add: prewriteLock_eq)
  have ccv': "checkConflictValue (valuesIter dx (m_Key m)) m (req_StartVersion req)
                       (req_StartVersion req) False (req_AssertionLevel req) = Inr r"
    using checkConflictValue_cong[of m "valuesIter dx (m_Key m)" "valuesIter d (m_Key m)"]
          after_valuesIter[OF assms(1)] after_valuesIter[OF assms(2)] assms(6) ccv
    by (simp add: writesOf_valuesIter)
  have ttl: "(if req_LockTtl req < l_ttl L then l_ttl L else req_LockTtl req) = ttl1"
    using t by (auto simp: L)
  have lock': "prewriteLock m (req_StartVersion req) (req_PrimaryLock req) ttl1 (req_TxnSize req)
                 (if req_MinCommitTs req < l_minCommitTS L then l_minCommitTS L
                  else req_MinCommitTs req) = ops"
    using c unfolding o prewriteLock_eq by (auto simp: L)
  have pm: "prewriteMutation dx m (req_StartVersion req) (req_PrimaryLock req) (req_LockTtl req)
              (req_TxnSize req) b (req_MinCommitTs req) (req_AssertionLevel req)
            = (if l_op L \<noteq> Op_PessimisticLock then Inr [] else Inr ops)"
  proof -
    have lst: "l_startTS L = req_StartVersion req" by (simp add: L)
    show ?thesis
      unfolding prewriteMutation_view[OF assms(2)]
      by (simp add: assms(5) lst ccv' ttl lock')
  qed
  have chk: "\<not> ((m_Op m = Op_Insert \<or> m_Op m = Op_CheckNotExists) \<and> req_ForUpdateTs req = 0)"
    using nc assms(7) by auto
  show ?thesis
    using chk nc pm by (auto simp: prewriteStep_def Let_def)
qed

subsection \<open>Sub-requests\<close>

lemma pick_Nil [simp]: "pick [] sel = []" "pick xs [] = []"
  by (simp_all add: pick_def)

lemma pick_Cons [simp]:
  "pick (x # xs) (b # sel) = (if b then x # pick xs sel else pick xs sel)"
  by (simp add: pick_def)

lemma set_pick: "set (pick xs sel) \<subseteq> set xs"
  by (auto simp: pick_def dest: set_zip_leftD)

lemma distinct_map_pick: "distinct (map f xs) \<Longrightarrow> distinct (map f (pick xs sel))"
proof (induction xs arbitrary: sel)
  case Nil
  then show ?case by simp
next
  case (Cons x xs)
  show ?case
  proof (cases sel)
    case Nil
    then show ?thesis by simp
  next
    case (Cons b sel')
    have "f x \<notin> f ` set (pick xs sel')"
      using Cons.prems set_pick[of xs sel'] by auto
    with Cons.IH[of sel'] Cons.prems Cons show ?thesis by simp
  qed
qed

lemma pick_zip:
  "length ys = length xs \<Longrightarrow> pick (zip xs ys) sel = zip (pick xs sel) (pick ys sel)"
proof (induction xs arbitrary: ys sel)
  case Nil
  then show ?case by simp
next
  case (Cons x xs)
  then obtain y ys' where ys: "ys = y # ys'" "length ys' = length xs" by (cases ys) auto
  show ?case
  proof (cases sel)
    case Nil
    then show ?thesis by simp
  next
    case (Cons b sel')
    with Cons.IH[OF ys(2), of sel'] ys show ?thesis by simp
  qed
qed

lemma length_pick:
  "length ys = length xs \<Longrightarrow> length (pick ys sel) = length (pick xs sel)"
proof (induction xs arbitrary: ys sel)
  case Nil
  then show ?case by simp
next
  case (Cons x xs)
  then obtain y ys' where ys: "ys = y # ys'" "length ys' = length xs" by (cases ys) auto
  show ?case
  proof (cases sel)
    case Nil
    then show ?thesis by simp
  next
    case (Cons b sel')
    with Cons.IH[OF ys(2), of sel'] ys show ?thesis by simp
  qed
qed

lemma pick_replicate:
  "pick (replicate (length xs) c) sel = replicate (length (pick xs sel)) c"
proof (induction xs arbitrary: sel)
  case Nil
  then show ?case by simp
next
  case (Cons x xs)
  show ?case
  proof (cases sel)
    case Nil
    then show ?thesis by simp
  next
    case (Cons b sel')
    with Cons.IH[of sel'] show ?thesis by simp
  qed
qed

lemma flagsOf_subRequest:
  assumes "req_IsPessimisticLock req = []
           \<or> length (req_IsPessimisticLock req) = length (req_Mutations req)"
  shows "flagsOf (subRequest req sel) = pick (flagsOf req) sel"
proof (cases "req_IsPessimisticLock req = []")
  case True
  then show ?thesis
    by (simp add: flagsOf_def subRequest_def pick_replicate)
next
  case False
  with assms have len: "length (req_IsPessimisticLock req) = length (req_Mutations req)" by simp
  show ?thesis
  proof (cases "pick (req_IsPessimisticLock req) sel = []")
    case True
    with length_pick[OF len, of sel] have "pick (req_Mutations req) sel = []" by simp
    with True False show ?thesis by (simp add: flagsOf_def subRequest_def)
  next
    case ne: False
    with False show ?thesis by (simp add: flagsOf_def subRequest_def)
  qed
qed

lemma zip_subRequest:
  assumes "req_IsPessimisticLock req = []
           \<or> length (req_IsPessimisticLock req) = length (req_Mutations req)"
  shows "zip (req_Mutations (subRequest req sel)) (flagsOf (subRequest req sel))
           = pick (zip (req_Mutations req) (flagsOf req)) sel"
proof -
  have len: "length (flagsOf req) = length (req_Mutations req)"
    using assms by (auto simp: flagsOf_def)
  show ?thesis
    unfolding flagsOf_subRequest[OF assms] pick_zip[OF len]
    by (simp add: subRequest_def)
qed

lemma wellformed_subRequest:
  assumes "req_IsPessimisticLock req = []
           \<or> length (req_IsPessimisticLock req) = length (req_Mutations req)"
  shows "req_IsPessimisticLock (subRequest req sel) = []
           \<or> length (req_IsPessimisticLock (subRequest req sel))
              = length (req_Mutations (subRequest req sel))"
  using assms length_pick[of "req_IsPessimisticLock req" "req_Mutations req" sel]
  by (auto simp: subRequest_def)

lemma prewriteStep_subRequest: "prewriteStep d (subRequest req sel) z = prewriteStep d req z"
proof -
  have f: "req_StartVersion (subRequest req sel) = req_StartVersion req"
    "req_PrimaryLock (subRequest req sel) = req_PrimaryLock req"
    "req_LockTtl (subRequest req sel) = req_LockTtl req"
    "req_TxnSize (subRequest req sel) = req_TxnSize req"
    "req_MinCommitTs (subRequest req sel) = req_MinCommitTs req"
    "req_AssertionLevel (subRequest req sel) = req_AssertionLevel req"
    "req_ForUpdateTs (subRequest req sel) = req_ForUpdateTs req"
    "req_ResolvedLocks (subRequest req sel) = req_ResolvedLocks req"
    by (simp_all add: subRequest_def)
  show ?thesis unfolding prewriteStep_def f by (rule refl)
qed

subsection \<open>The locks a batch installs\<close>

lemma putAt_append:
  "putAt (xs @ ys) k = (case putAt ys k of Some L \<Rightarrow> Some L | None \<Rightarrow> putAt xs k)"
  by (induction xs) (auto split: option.splits)

lemma putAt_single:
  assumes "lockPutOf key f z"
  shows "(putAt (f z) k = Some L) = (key z = k \<and> f z = [BatchPut (k, lockVer) (LockRec L)])"
  using assms by (auto simp: lockPutOf_def split: if_splits)

lemma putAt_concat:
  assumes "\<forall>z\<in>set zs. lockPutOf key f z" "distinct (map key zs)"
  shows "(putAt (concat (map f zs)) k = Some L)
           = (\<exists>z\<in>set zs. key z = k \<and> f z = [BatchPut (k, lockVer) (LockRec L)])"
  using assms
proof (induction zs arbitrary: L)
  case Nil
  then show ?case by simp
next
  case (Cons z zs)
  have ih: "(putAt (concat (map f zs)) k = Some L)
           = (\<exists>z\<in>set zs. key z = k \<and> f z = [BatchPut (k, lockVer) (LockRec L)])" for L
    using Cons.IH Cons.prems by simp
  have fz: "lockPutOf key f z" using Cons.prems(1) by simp
  have nz: "\<forall>z'\<in>set zs. key z' \<noteq> key z"
  proof
    fix z' assume "z' \<in> set zs"
    then have "key z' \<in> key ` set zs" by (rule imageI)
    with Cons.prems(2) show "key z' \<noteq> key z" by auto
  qed
  show ?case
  proof (cases "putAt (concat (map f zs)) k")
    case None
    then have none: "\<not> (\<exists>z\<in>set zs. key z = k \<and> f z = [BatchPut (k, lockVer) (LockRec L)])"
      using ih[of L] by simp
    show ?thesis
      using None none putAt_single[OF fz, of k L] by (auto simp: putAt_append)
  next
    case (Some L')
    then obtain z' where z': "z' \<in> set zs" "key z' = k" "f z' = [BatchPut (k, lockVer) (LockRec L')]"
      using ih[of L'] by auto
    then have kz: "key z \<noteq> k" using nz by auto
    have "(L' = L) = (\<exists>z\<in>set zs. key z = k \<and> f z = [BatchPut (k, lockVer) (LockRec L)])"
      using ih[of L] Some by auto
    with Some kz show ?thesis by (simp add: putAt_append)
  qed
qed

lemma isLockPut_concat:
  assumes "\<forall>z\<in>set zs. lockPutOf key f z"
  shows "list_all isLockPut (concat (map f zs))"
  using assms by (induction zs) (auto simp: lockPutOf_def)

lemma stepOps_form:
  assumes "wf_db d"
  shows "lockPutOf (\<lambda>z. m_Key (fst z)) (\<lambda>z. stepOps (prewriteStep d req z)) z"
proof (cases "prewriteStep d req z")
  case (Wrote ops)
  show ?thesis
  proof (cases "ops = []")
    case True
    with Wrote show ?thesis by (simp add: lockPutOf_def)
  next
    case False
    from prewriteStep_wrote[OF assms, of req "fst z" "snd z" ops] Wrote False
    show ?thesis by (auto simp: lockPutOf_def prewriteLock_eq)
  qed
qed (simp_all add: lockPutOf_def)

subsection \<open>Replaying a prewrite\<close>

lemma Prewrite_replay_views:
  assumes wf: "wf_db d"
    and dist: "distinct (map m_Key (req_Mutations req))"
    and flags: "req_IsPessimisticLock req = []
                \<or> length (req_IsPessimisticLock req) = length (req_Mutations req)"
    and ins: "req_ForUpdateTs req \<noteq> 0
              \<or> (\<forall>m\<in>set (pick (req_Mutations req) sel). m_Op m \<noteq> Op_Insert)"
    and once: "Prewrite req d = Some (errs1, d1)" and ok1: "succeeded errs1"
  shows "\<exists>errs' dsub errs2 d2.
           Prewrite (subRequest req sel) d = Some (errs', dsub) \<and> succeeded errs'
           \<and> Prewrite req dsub = Some (errs2, d2) \<and> succeeded errs2
           \<and> wf_db d1 \<and> wf_db d2
           \<and> (\<forall>k. lockOf d2 k = lockOf d1 k \<and> writesOf d2 k = writesOf d1 k)"
proof -
  define zs where "zs = zip (req_Mutations req) (flagsOf req)"
  define key where "key = (\<lambda>z::Mutation \<times> bool. m_Key (fst z))"
  define f0 where "f0 = (\<lambda>z. stepOps (prewriteStep d req z))"
  define P where "P = pick zs sel"
  have len: "length (flagsOf req) = length (req_Mutations req)"
    using flags by (auto simp: flagsOf_def)
  have mzs: "map fst zs = req_Mutations req"
    unfolding zs_def using len by simp
  have "map key zs = map m_Key (map fst zs)"
    by (simp add: key_def)
  with dist mzs have dk: "distinct (map key zs)" by simp
  then have inj: "inj_on key (set zs)" by (simp add: distinct_map)
  (* the first run *)
  have pz: "Prewrite req d =
      Some (concat (map (\<lambda>z. stepErrs (prewriteStep d req z)) zs),
            if (\<exists>z\<in>set zs. stepFailed (prewriteStep d req z)) then d
            else dbWrite d (concat (map f0 zs)))"
    unfolding Prewrite_zip[OF flags] zs_def f0_def by (rule refl)
  from once pz have e1: "errs1 = concat (map (\<lambda>z. stepErrs (prewriteStep d req z)) zs)"
    by simp
  with ok1 have nf1: "\<forall>z\<in>set zs. \<not> stepFailed (prewriteStep d req z)"
    by (simp add: succeeded_concat_stepErrs)
  with once pz have d1: "d1 = dbWrite d (concat (map f0 zs))" by simp
  (* the run of the sub-request *)
  have PS: "set P \<subseteq> set zs" unfolding P_def by (rule set_pick)
  have dP: "distinct (map key P)" unfolding P_def by (rule distinct_map_pick[OF dk])
  define dsub where "dsub = dbWrite d (concat (map f0 P))"
  have nfP: "\<not> (\<exists>z\<in>set P. stepFailed (prewriteStep d req z))" using nf1 PS by blast
  have sub: "Prewrite (subRequest req sel) d =
      Some (concat (map (\<lambda>z. stepErrs (prewriteStep d req z)) P), dsub)"
    unfolding Prewrite_zip[OF wellformed_subRequest[OF flags]] zip_subRequest[OF flags]
      prewriteStep_subRequest
    using nfP by (simp add: P_def zs_def dsub_def f0_def)
  have okP: "succeeded (concat (map (\<lambda>z. stepErrs (prewriteStep d req z)) P))"
    using nfP by (simp add: succeeded_concat_stepErrs)
  have form0: "\<forall>z\<in>set zs. lockPutOf key f0 z"
    unfolding key_def f0_def using stepOps_form[OF wf] by blast
  have formP: "\<forall>z\<in>set P. lockPutOf key f0 z" using form0 PS by blast
  note wsub = dbWrite_lockPuts[OF isLockPut_concat[OF formP] wf, folded dsub_def]
  have wfs: "wf_db dsub" using wsub by simp
  have ws: "writesOf dsub k = writesOf d k" for k using wsub by simp
  have ls: "lockOf dsub k = (case putAt (concat (map f0 P)) k of
                               Some L \<Rightarrow> Some L | None \<Rightarrow> lockOf d k)" for k
    using wsub by simp
  note pP = putAt_concat[OF formP dP]
  (* the replay *)
  define f2 where "f2 = (\<lambda>z. stepOps (prewriteStep dsub req z))"
  have step2: "\<not> stepFailed (prewriteStep dsub req z)
               \<and> (f2 z = f0 z \<or> (f2 z = [] \<and> z \<in> set P \<and> f0 z \<noteq> []))"
    if z: "z \<in> set zs" for z
  proof (cases "z \<in> set P \<and> f0 z \<noteq> []")
    case True
    obtain m b where mb: "z = (m, b)" by (cases z)
    from form0 z True obtain L where L: "f0 z = [BatchPut (key z, lockVer) (LockRec L)]"
      by (auto simp: lockPutOf_def)
    have w: "prewriteStep d req (m, b) = Wrote (f0 z)"
      using nf1 z True mb by (cases "prewriteStep d req z") (simp_all add: f0_def)
    have "putAt (concat (map f0 P)) (key z) = Some L"
      using pP[of "key z" L] True L by blast
    then have lk: "lockOf dsub (m_Key m) = Some L"
      using ls[of "key z"] by (simp add: key_def mb)
    have "P = zip (pick (req_Mutations req) sel) (pick (flagsOf req) sel)"
      unfolding P_def zs_def by (rule pick_zip[OF len])
    with True mb have "m \<in> set (pick (req_Mutations req) sel)"
      by (auto dest: set_zip_leftD)
    with ins have insz: "req_ForUpdateTs req \<noteq> 0 \<or> m_Op m \<noteq> Op_Insert" by blast
    have L': "f0 z = [BatchPut (m_Key m, lockVer) (LockRec L)]"
      using L by (simp add: key_def mb)
    from prewriteStep_replay[OF wf wfs w L' lk ws insz]
    have "prewriteStep dsub req z = Wrote [] \<or> prewriteStep dsub req z = Wrote (f0 z)"
      by (simp add: mb)
    with True show ?thesis by (auto simp: f2_def)
  next
    case False
    have np: "putAt (concat (map f0 P)) (key z) = None"
    proof (rule ccontr)
      assume "putAt (concat (map f0 P)) (key z) \<noteq> None"
      then obtain L where "putAt (concat (map f0 P)) (key z) = Some L" by blast
      with pP[of "key z" L] obtain z' where
        z': "z' \<in> set P" "key z' = key z" "f0 z' = [BatchPut (key z, lockVer) (LockRec L)]"
        by blast
      with PS z inj have "z' = z" by (auto dest: inj_onD)
      with z' False show False by simp
    qed
    have l: "lockOf dsub (m_Key (fst z)) = lockOf d (m_Key (fst z))"
      using ls[of "key z"] np by (simp add: key_def)
    have "prewriteStep dsub req z = prewriteStep d req z"
      by (rule prewriteStep_cong[OF wfs wf l ws])
    with nf1 z show ?thesis by (simp add: f2_def f0_def)
  qed
  have nf2: "\<not> (\<exists>z\<in>set zs. stepFailed (prewriteStep dsub req z))"
    using step2 by blast
  define d2 where "d2 = dbWrite dsub (concat (map f2 zs))"
  have rep: "Prewrite req dsub =
      Some (concat (map (\<lambda>z. stepErrs (prewriteStep dsub req z)) zs), d2)"
    unfolding Prewrite_zip[OF flags]
    using nf2 by (simp add: zs_def d2_def f2_def)
  have ok2: "succeeded (concat (map (\<lambda>z. stepErrs (prewriteStep dsub req z)) zs))"
    using nf2 by (simp add: succeeded_concat_stepErrs)
  have form2: "\<forall>z\<in>set zs. lockPutOf key f2 z"
    unfolding key_def f2_def using stepOps_form[OF wfs] by blast
  note w2 = dbWrite_lockPuts[OF isLockPut_concat[OF form2] wfs, folded d2_def]
  note w1 = dbWrite_lockPuts[OF isLockPut_concat[OF form0] wf, folded d1]
  note p1 = putAt_concat[OF form0 dk]
  note p2 = putAt_concat[OF form2 dk]
  have views: "lockOf d2 k = lockOf d1 k \<and> writesOf d2 k = writesOf d1 k" for k
  proof
    show "writesOf d2 k = writesOf d1 k" using w2 w1 ws by simp
    show "lockOf d2 k = lockOf d1 k"
    proof (cases "putAt (concat (map f0 zs)) k")
      case None
      have a: "f0 z = []" if "z \<in> set zs" "key z = k" for z
      proof (rule ccontr)
        assume "f0 z \<noteq> []"
        with form0 that obtain L where "f0 z = [BatchPut (k, lockVer) (LockRec L)]"
          by (auto simp: lockPutOf_def)
        with p1[of k L] that None show False by auto
      qed
      have b2: "putAt (concat (map f2 zs)) k = None"
      proof (rule ccontr)
        assume "putAt (concat (map f2 zs)) k \<noteq> None"
        then obtain L where "putAt (concat (map f2 zs)) k = Some L" by blast
        with p2[of k L] obtain z where
          z: "z \<in> set zs" "key z = k" "f2 z = [BatchPut (k, lockVer) (LockRec L)]" by blast
        with step2[OF z(1)] a[OF z(1,2)] show False by auto
      qed
      have bP: "putAt (concat (map f0 P)) k = None"
      proof (rule ccontr)
        assume "putAt (concat (map f0 P)) k \<noteq> None"
        then obtain L where "putAt (concat (map f0 P)) k = Some L" by blast
        with pP[of k L] obtain z where
          z: "z \<in> set P" "key z = k" "f0 z = [BatchPut (k, lockVer) (LockRec L)]" by blast
        with a[of z] PS show False by auto
      qed
      show ?thesis using w2 w1 ls[of k] None b2 bP by simp
    next
      case (Some L)
      with p1[of k L] obtain z where
        z: "z \<in> set zs" "key z = k" "f0 z = [BatchPut (k, lockVer) (LockRec L)]" by blast
      have l1: "lockOf d1 k = Some L" using w1 Some by simp
      show ?thesis
      proof (cases "f2 z = f0 z")
        case True
        with z p2[of k L] have "putAt (concat (map f2 zs)) k = Some L" by auto
        with w2 l1 show ?thesis by simp
      next
        case False
        with step2[OF z(1)] have e: "f2 z = []" and zP: "z \<in> set P" by auto
        have b2: "putAt (concat (map f2 zs)) k = None"
        proof (rule ccontr)
          assume "putAt (concat (map f2 zs)) k \<noteq> None"
          then obtain L' where "putAt (concat (map f2 zs)) k = Some L'" by blast
          with p2[of k L'] obtain z' where
            z': "z' \<in> set zs" "key z' = k" "f2 z' = [BatchPut (k, lockVer) (LockRec L')]"
            by blast
          with z inj have "z' = z" by (auto dest: inj_onD)
          with z' e show False by simp
        qed
        have "putAt (concat (map f0 P)) k = Some L"
          using pP[of k L] zP z by auto
        with w2 b2 ls[of k] l1 show ?thesis by simp
      qed
    qed
  qed
  have wf1: "wf_db d1" using w1 by simp
  have wf2: "wf_db d2" using w2 by simp
  from sub okP rep ok2 views wf1 wf2 show ?thesis by blast
qed

lemma lockOf_mem: "lockOf d k = Some l \<Longrightarrow> ((k, lockVer), LockRec l) \<in> set d"
  by (induction d) (auto split: payload.splits if_splits)

lemma wf_db_distinct: "wf_db d \<Longrightarrow> distinct (map fst d)"
proof (induction d)
  case Nil
  then show ?case by simp
next
  case (Cons e rest)
  have "\<forall>x\<in>set rest. mvccLess (fst e) (fst x)" and r: "wf_db rest"
    using Cons.prems by (simp_all add: wf_db_def)
  then have "fst e \<notin> fst ` set rest" using mvccLess_irrefl by force
  with Cons.IH[OF r] show ?case by simp
qed

lemma lockOf_memI:
  "distinct (map fst d) \<Longrightarrow> ((k, lockVer), LockRec l) \<in> set d \<Longrightarrow> lockOf d k = Some l"
proof (induction d)
  case Nil
  then show ?case by simp
next
  case (Cons e rest)
  show ?case
  proof (cases "e = ((k, lockVer), LockRec l)")
    case True
    then show ?thesis by simp
  next
    case False
    with Cons.prems have mem: "((k, lockVer), LockRec l) \<in> set rest" by simp
    then have "fst ((k, lockVer), LockRec l) \<in> fst ` set rest" by (rule imageI)
    then have "(k, lockVer) \<in> fst ` set rest" by simp
    moreover have "fst e \<notin> fst ` set rest" using Cons.prems(1) by simp
    ultimately have ne: "fst e \<noteq> (k, lockVer)" by metis
    obtain k' ver p where ek: "e = ((k', ver), p)" by (cases e) auto
    have "lockOf (e # rest) k = lockOf rest k"
      using ne ek by (auto split: payload.splits)
    with Cons.IH mem Cons.prems(1) show ?thesis by simp
  qed
qed

lemma views_subset:
  assumes "wf_db d" "wf_db d'"
    and "\<forall>k. lockOf d k = lockOf d' k \<and> writesOf d k = writesOf d' k"
  shows "set d \<subseteq> set d'"
proof
  fix e assume e: "e \<in> set d"
  obtain k ver p where ek: "e = ((k, ver), p)" by (cases e) auto
  have te: "typed_entry e" using assms(1) e by (auto simp: wf_db_def list_all_iff)
  show "e \<in> set d'"
  proof (cases p)
    case (LockRec l)
    with te ek have v: "ver = lockVer" by simp
    have "lockOf d k = Some l"
      by (rule lockOf_memI[OF wf_db_distinct[OF assms(1)]]) (use e ek LockRec v in simp)
    with assms(3) have "lockOf d' k = Some l" by simp
    from lockOf_mem[OF this] ek LockRec v show ?thesis by simp
  next
    case (ValueRec w)
    with te ek have v: "ver \<noteq> lockVer" "v_commitTS w = ver" by simp_all
    have "w \<in> set (writesOf d k)"
      by (rule writesOf_memI[of k ver]) (use e ek ValueRec v in simp_all)
    with assms(3) have "w \<in> set (writesOf d' k)" by simp
    from writesOf_mem[OF _ this] assms(2) ek ValueRec v show ?thesis
      by (simp add: wf_db_def)
  qed
qed

lemma wf_db_set_eq:
  "wf_db d \<Longrightarrow> wf_db d' \<Longrightarrow> set d = set d' \<Longrightarrow> d = d'"
proof (induction d arbitrary: d')
  case Nil
  then show ?case by simp
next
  case (Cons x xs)
  then obtain y ys where d': "d' = y # ys" by (cases d') auto
  have gx: "\<forall>e\<in>set xs. mvccLess (fst x) (fst e)" and wx: "wf_db xs"
    using Cons.prems(1) by (simp_all add: wf_db_def)
  have gy: "\<forall>e\<in>set ys. mvccLess (fst y) (fst e)" and wy: "wf_db ys"
    using Cons.prems(2) d' by (simp_all add: wf_db_def)
  have xy: "x = y"
  proof (rule ccontr)
    assume ne: "x \<noteq> y"
    have "x \<in> set ys" using Cons.prems(3) d' ne by auto
    then have 1: "mvccLess (fst y) (fst x)" using gy by blast
    have "y \<in> set xs" using Cons.prems(3) d' ne by auto
    then have 2: "mvccLess (fst x) (fst y)" using gx by blast
    from 1 2 mvccLess_asym show False by blast
  qed
  have nx: "x \<notin> set xs" using gx mvccLess_irrefl by blast
  have ny: "y \<notin> set ys" using gy mvccLess_irrefl by blast
  have "set xs = set ys"
    using Cons.prems(3) d' xy nx ny by auto
  from Cons.IH[OF wx wy this] xy d' show ?case by simp
qed

lemma views_ext:
  assumes "wf_db d" "wf_db d'"
    and "\<forall>k. lockOf d k = lockOf d' k \<and> writesOf d k = writesOf d' k"
  shows "d = d'"
proof (rule wf_db_set_eq[OF assms(1,2)])
  have "set d' \<subseteq> set d"
    by (rule views_subset[OF assms(2,1)]) (use assms(3) in simp)
  with views_subset[OF assms] show "set d = set d'" by blast
qed

text \<open>
  Replaying is idempotent apart from the optimistic \<open>Insert\<close>.  On a well-formed store,
  let a request with pairwise distinct keys, whose \<open>IsPessimisticLock\<close> list is empty or
  has one flag per mutation, succeed once.  Then for every subset of its mutations that
  contains no \<open>Insert\<close> (or when \<open>for_update_ts\<close> is set), the sub-request of that
  subset succeeds on the same store, and replaying the whole request on the store it
  leaves succeeds and ends in the store that completing the request once gives: the same
  lock records, and the same write records.  The subset may be empty or all of the
  request.
\<close>

theorem Prewrite_replay:
  assumes "wf_db d"
    and "distinct (map m_Key (req_Mutations req))"
    and "req_IsPessimisticLock req = []
         \<or> length (req_IsPessimisticLock req) = length (req_Mutations req)"
    and "req_ForUpdateTs req \<noteq> 0
         \<or> (\<forall>m\<in>set (pick (req_Mutations req) sel). m_Op m \<noteq> Op_Insert)"
    and "Prewrite req d = Some (errs1, d1)" and "succeeded errs1"
  shows "\<exists>errs' dsub errs2.
           Prewrite (subRequest req sel) d = Some (errs', dsub) \<and> succeeded errs'
           \<and> Prewrite req dsub = Some (errs2, d1) \<and> succeeded errs2"
proof -
  from Prewrite_replay_views[OF assms] obtain errs' dsub errs2 d2 where
    r: "Prewrite (subRequest req sel) d = Some (errs', dsub)" "succeeded errs'"
       "Prewrite req dsub = Some (errs2, d2)" "succeeded errs2"
       "wf_db d1" "wf_db d2"
       "\<forall>k. lockOf d2 k = lockOf d1 k \<and> writesOf d2 k = writesOf d1 k"
    by blast
  from views_ext[OF r(6,5,7)] have "d2 = d1" .
  with r show ?thesis by blast
qed

lemma getValueLoop_Nil: "getValueLoop k s [] = Inr None"
  by (simp add: getValueLoop.simps)

lemmas prewrite_eval =
  Prewrite_def prewriteBody_def prewriteMutation_def mvcc_getValue_def getValue_def check_def
  lockErr_def checkConflictValue_def newIterator_def prewriteLock_def dbWrite_def
  getValueLoop_Nil Let_def

lemma exReq2_once:
  "Prewrite exReq2 exDb =
     Some ([None, None], exDb @ [(([2], lockVer), LockRec exLock2), (([3], lockVer), LockRec exLock3)])"
  by (simp add: prewrite_eval exReq2_def exDb_def exLock2_def exLock3_def lockVer_def)

lemma exReq2_sub:
  "Prewrite (subRequest exReq2 [True, False]) exDb =
     Some ([None], exDb @ [(([2], lockVer), LockRec exLock2)])"
  by (simp add: prewrite_eval subRequest_def pick_def exReq2_def exDb_def exLock2_def lockVer_def)

lemma exReq2_replay:
  "Prewrite exReq2 (exDb @ [(([2], lockVer), LockRec exLock2)]) =
     Some ([Some (ErrLocked [2] exLock2), None], exDb @ [(([2], lockVer), LockRec exLock2)])"
  by (simp add: prewrite_eval exReq2_def exDb_def exLock2_def lockVer_def)

lemma exReq2_read:
  "mvcc_getValue (exDb @ [(([2], lockVer), LockRec exLock2)]) [2] 20 IsolationLevel_SI []
     = Inl (ErrLocked [2] exLock2)"
  by (simp add: prewrite_eval exDb_def exLock2_def lockVer_def)

lemma exReq2_retry:
  "prewriteMutation (exDb @ [(([2], lockVer), LockRec exLock2)])
     \<lparr>m_Op = Op_Insert, m_Key = [2], m_Value = [5], m_Assertion = Assertion_None\<rparr>
     20 [2] 3000 2 False 21 AssertionLevel_Off = Inr []"
  by (simp add: prewrite_eval exDb_def exLock2_def lockVer_def)

text \<open>
  C7. Replaying a prewrite request after a subset of its mutations was completed does not
  always give the lock set of completing it once.  The transaction that started at 20
  inserts the key \<open>[2]\<close> and puts the key \<open>[3]\<close>, optimistically.  Completed once, the
  request installs both locks.  After the \<open>Insert\<close> of \<open>[2]\<close> alone is completed, the
  replay reads \<open>[2]\<close> under snapshot isolation before it prewrites it, meets the lock
  the transaction itself installed there, fails with \<open>Locked\<close> and writes nothing: the
  lock on \<open>[3]\<close> is missing.  \<^verbatim>\<open>prewriteMutation\<close>, on the same store and mutation,
  takes the lock of the same transaction for a repeated request and returns without
  error.
\<close>

theorem Prewrite_replay_own_lock:
  "distinct (map m_Key (req_Mutations exReq2))
   \<and> Prewrite exReq2 exDb =
       Some ([None, None],
             exDb @ [(([2], lockVer), LockRec exLock2), (([3], lockVer), LockRec exLock3)])
   \<and> Prewrite (subRequest exReq2 [True, False]) exDb =
       Some ([None], exDb @ [(([2], lockVer), LockRec exLock2)])
   \<and> Prewrite exReq2 (exDb @ [(([2], lockVer), LockRec exLock2)]) =
       Some ([Some (ErrLocked [2] exLock2), None], exDb @ [(([2], lockVer), LockRec exLock2)])
   \<and> lockOf (exDb @ [(([2], lockVer), LockRec exLock2)]) [3] = None
   \<and> lockOf (exDb @ [(([2], lockVer), LockRec exLock2), (([3], lockVer), LockRec exLock3)]) [3]
       = Some exLock3
   \<and> mvcc_getValue (exDb @ [(([2], lockVer), LockRec exLock2)]) [2] 20 IsolationLevel_SI []
       = Inl (ErrLocked [2] exLock2)
   \<and> prewriteMutation (exDb @ [(([2], lockVer), LockRec exLock2)])
         \<lparr>m_Op = Op_Insert, m_Key = [2], m_Value = [5], m_Assertion = Assertion_None\<rparr>
         20 [2] 3000 2 False 21 AssertionLevel_Off = Inr []"
  using exReq2_once exReq2_sub exReq2_replay exReq2_read exReq2_retry
  by (simp add: exReq2_def exDb_def)

lemma exReq3_once:
  "Prewrite exReq3 exDb =
     Some ([None, None], exDb @ [(([2], lockVer), LockRec exLock2), (([3], lockVer), LockRec exLock3)])"
  by (simp add: prewrite_eval exReq3_def exReq2_def exDb_def exLock2_def exLock3_def lockVer_def)

theorem Prewrite_replay_witness:
  "wf_db exDb
   \<and> distinct (map m_Key (req_Mutations exReq3))
   \<and> (req_IsPessimisticLock exReq3 = []
        \<or> length (req_IsPessimisticLock exReq3) = length (req_Mutations exReq3))
   \<and> Prewrite exReq3 exDb =
       Some ([None, None],
             exDb @ [(([2], lockVer), LockRec exLock2), (([3], lockVer), LockRec exLock3)])
   \<and> succeeded [None, None]
   \<and> (\<exists>errs' dsub errs2.
         Prewrite (subRequest exReq3 [True, False]) exDb = Some (errs', dsub) \<and> succeeded errs'
         \<and> Prewrite exReq3 dsub =
             Some (errs2, exDb @ [(([2], lockVer), LockRec exLock2), (([3], lockVer), LockRec exLock3)])
         \<and> succeeded errs2)"
proof -
  have h2: "distinct (map m_Key (req_Mutations exReq3))" by (simp add: exReq3_def)
  have h3: "req_IsPessimisticLock exReq3 = []
        \<or> length (req_IsPessimisticLock exReq3) = length (req_Mutations exReq3)"
    by (simp add: exReq3_def exReq2_def)
  have h4: "req_ForUpdateTs exReq3 \<noteq> 0
         \<or> (\<forall>m\<in>set (pick (req_Mutations exReq3) [True, False]). m_Op m \<noteq> Op_Insert)"
    by (simp add: exReq3_def pick_def)
  have h6: "succeeded [None, None]" by (simp add: succeeded_def)
  from Prewrite_replay[OF wf_exDb h2 h3 h4 exReq3_once h6] wf_exDb h2 h3 exReq3_once h6
  show ?thesis by simp
qed

section \<open>The committer's prewrite action (prewrite.go)\<close>

text \<open>
  One entry of \<^verbatim>\<open>CommitterMutations\<close>, read through \<^verbatim>\<open>GetOp\<close>, \<^verbatim>\<open>GetKey\<close>,
  \<^verbatim>\<open>GetValue\<close>, \<^verbatim>\<open>IsPessimisticLock\<close>, \<^verbatim>\<open>IsAssertExists\<close> and \<^verbatim>\<open>IsAssertNotExist\<close>.
\<close>

record CommitterMutation =
  cm_Op :: Op
  cm_Key :: bytes
  cm_Value :: bytes
  cm_IsPessimisticLock :: bool
  cm_IsAssertExists :: bool
  cm_IsAssertNotExist :: bool

record batchMutations =
  bm_mutations :: "CommitterMutation list"
  bm_isPrimary :: bool

text \<open>
  The fields of \<^verbatim>\<open>twoPhaseCommitter\<close> that the prewrite action reads or writes.
  \<open>c_useOnePC\<close> and \<open>c_useAsyncCommit\<close> are the flags behind \<^verbatim>\<open>isOnePC\<close>/\<^verbatim>\<open>setOnePC\<close>
  and \<^verbatim>\<open>isAsyncCommit\<close>/\<^verbatim>\<open>setAsyncCommit\<close>; \<open>c_primary\<close> and \<open>c_asyncSecondaries\<close> stand
  for the results of \<^verbatim>\<open>c.primary()\<close> and \<^verbatim>\<open>c.asyncSecondaries()\<close>;
  \<open>c_ttlManagerRunning\<close> records that \<^verbatim>\<open>c.run(c, nil)\<close> started the TTL manager; \<open>c_rpcError\<close>
  is the RPC error kept by the request sender of the current batch.
\<close>

record twoPhaseCommitter =
  c_startTS :: u64
  c_forUpdateTS :: u64
  c_minCommitTS :: u64
  c_maxCommitTS :: u64
  c_lockTTL :: u64
  c_primary :: bytes
  c_asyncSecondaries :: "bytes list"
  c_useAsyncCommit :: bool
  c_useOnePC :: bool
  c_onePCCommitTS :: u64
  c_assertionLevel :: AssertionLevel
  c_txnSize :: int
  c_noFallBack :: bool
  c_ttlManagerRunning :: bool
  c_rpcError :: "string option"
  c_undeterminedErr :: "string option"
  c_prewriteCancelled :: bool

definition mutationAssertion :: "CommitterMutation \<Rightarrow> Assertion" where
  "mutationAssertion m =
     (let assertion = Assertion_None;
          assertion = (if cm_IsAssertExists m then Assertion_Exist else assertion);
          assertion = (if cm_IsAssertNotExist m then Assertion_NotExist else assertion)
      in assertion)"

text \<open>
  \<^verbatim>\<open>buildPrewriteRequest\<close>, with every failpoint disabled (\<^verbatim>\<open>EvalFailpoint\<close> returns an
  error unless a test enables it).
\<close>

definition buildPrewriteRequest ::
  "twoPhaseCommitter \<Rightarrow> batchMutations \<Rightarrow> u64 \<Rightarrow> PrewriteRequest" where
  "buildPrewriteRequest c batch txnSize =
     (let m = bm_mutations batch;
          mutations = map (\<lambda>x. \<lparr>m_Op = cm_Op x, m_Key = cm_Key x, m_Value = cm_Value x,
                                 m_Assertion = mutationAssertion x\<rparr>) m;
          isPessimisticLock = map cm_IsPessimisticLock m;
          minCommitTS = c_minCommitTS c;
          minCommitTS =
            (if c_forUpdateTS c > 0 \<and> c_forUpdateTS c \<ge> minCommitTS
             then c_forUpdateTS c + 1
             else if c_startTS c \<ge> minCommitTS
             then c_startTS c + 1
             else minCommitTS);
          ttl = c_lockTTL c;
          assertionLevel = c_assertionLevel c;
          req = \<lparr>req_Mutations = mutations,
                 req_PrimaryLock = c_primary c,
                 req_StartVersion = c_startTS c,
                 req_LockTtl = ttl,
                 req_IsPessimisticLock = isPessimisticLock,
                 req_ForUpdateTs = c_forUpdateTS c,
                 req_TxnSize = txnSize,
                 req_MinCommitTs = minCommitTS,
                 req_MaxCommitTs = c_maxCommitTS c,
                 req_AssertionLevel = assertionLevel,
                 req_UseAsyncCommit = False,
                 req_Secondaries = [],
                 req_TryOnePc = False,
                 req_ResolvedLocks = []\<rparr>;
          req = (if c_useAsyncCommit c
                 then (if bm_isPrimary batch
                       then req\<lparr>req_Secondaries := c_asyncSecondaries c\<rparr>
                       else req)\<lparr>req_UseAsyncCommit := True\<rparr>
                 else req);
          req = (if c_useOnePC c then req\<lparr>req_TryOnePc := True\<rparr> else req)
      in req)"

text \<open>
  What one pass of the loop of \<^verbatim>\<open>handleSingleBatch\<close> leaves: the function returns
  (with an error or with none), the process stops in \<^verbatim>\<open>Fatal\<close>, or the key errors of
  the response are handed to the lock resolver and the request is sent again.
\<close>

datatype outcome = Returned "string option" | Fatal string | ResolveKeyErrors "string list"

text \<open>
  The deferred function of \<^verbatim>\<open>handleSingleBatch\<close>: on an error return, an RPC error
  of an async-commit or 1PC prewrite that was not cancelled makes the result undetermined.
\<close>

definition deferred :: "outcome \<Rightarrow> twoPhaseCommitter \<Rightarrow> twoPhaseCommitter" where
  "deferred out c =
     (case out of
        Returned (Some err) \<Rightarrow>
          (if (c_useAsyncCommit c \<or> c_useOnePC c) \<and> c_rpcError c \<noteq> None
               \<and> \<not> c_prewriteCancelled c
           then c\<lparr>c_undeterminedErr := c_rpcError c\<rparr> else c)
      | _ \<Rightarrow> c)"

text \<open>
  The body of the loop of \<^verbatim>\<open>handleSingleBatch\<close> from the point where the response
  came back without a transport error and without a region error, and carries a
  \<^verbatim>\<open>PrewriteResponse\<close>.  \<open>ttlRefreshedTxnSize\<close> is the configuration value
  \<^verbatim>\<open>TiKVClient.TTLRefreshedTxnSize\<close>.
\<close>

definition onPrewriteResponse ::
  "int \<Rightarrow> twoPhaseCommitter \<Rightarrow> batchMutations \<Rightarrow> PrewriteResponse
     \<Rightarrow> outcome \<times> twoPhaseCommitter" where
  "onPrewriteResponse ttlRefreshedTxnSize c batch prewriteResp =
     (let keyErrs = resp_Errors prewriteResp in
      if length keyErrs = 0 then
        (let c = c\<lparr>c_rpcError := None\<rparr>;
             c = (if bm_isPrimary batch
                     \<and> c_txnSize c > ttlRefreshedTxnSize
                     \<and> resp_OnePcCommitTs prewriteResp = 0
                  then c\<lparr>c_ttlManagerRunning := True\<rparr> else c)
         in if c_useOnePC c then
              (if resp_OnePcCommitTs prewriteResp = 0 then
                 (if resp_MinCommitTs prewriteResp \<noteq> 0
                  then (Returned (Some ''MinCommitTs must be 0 when 1pc falls back to 2pc''), c)
                  else (Returned None, c\<lparr>c_useOnePC := False, c_useAsyncCommit := False\<rparr>))
               else
                 (if c_onePCCommitTS c \<noteq> 0
                  then (Fatal ''one pc happened multiple times'', c)
                  else (Returned None,
                        c\<lparr>c_onePCCommitTS := resp_OnePcCommitTs prewriteResp\<rparr>)))
            else if resp_OnePcCommitTs prewriteResp \<noteq> 0
            then (Fatal ''tikv committed a non-1pc transaction with 1pc protocol'', c)
            else if c_useAsyncCommit c then
              (if resp_MinCommitTs prewriteResp = 0 then
                 (if c_noFallBack c then (Returned None, c)
                  else (Returned None, c\<lparr>c_useAsyncCommit := False\<rparr>))
               else
                 (Returned None,
                  if resp_MinCommitTs prewriteResp > c_minCommitTS c
                  then c\<lparr>c_minCommitTS := resp_MinCommitTs prewriteResp\<rparr> else c))
            else (Returned None, c))
      else (ResolveKeyErrors keyErrs, c))"

definition handlePrewriteResponse ::
  "int \<Rightarrow> twoPhaseCommitter \<Rightarrow> batchMutations \<Rightarrow> PrewriteResponse
     \<Rightarrow> outcome \<times> twoPhaseCommitter" where
  "handlePrewriteResponse ttlRefreshedTxnSize c batch prewriteResp =
     (let (out, c') = onPrewriteResponse ttlRefreshedTxnSize c batch prewriteResp
      in (out, deferred out c'))"


subsection \<open>Example committers\<close>

text \<open>An optimistic committer at start timestamp 10, and the same committer trying 1PC.\<close>

definition committer0 :: twoPhaseCommitter where
  "committer0 = \<lparr>c_startTS = 10, c_forUpdateTS = 0, c_minCommitTS = 0, c_maxCommitTS = 0,
     c_lockTTL = 3000, c_primary = [1], c_asyncSecondaries = [], c_useAsyncCommit = False,
     c_useOnePC = False, c_onePCCommitTS = 0, c_assertionLevel = AssertionLevel_Off,
     c_txnSize = 1, c_noFallBack = False, c_ttlManagerRunning = False, c_rpcError = None,
     c_undeterminedErr = None, c_prewriteCancelled = False\<rparr>"

definition committer1pc :: twoPhaseCommitter where
  "committer1pc = committer0\<lparr>c_useOnePC := True, c_useAsyncCommit := True\<rparr>"

definition batch0 :: batchMutations where
  "batch0 = \<lparr>bm_mutations = [\<lparr>cm_Op = Op_Put, cm_Key = [1], cm_Value = [7],
      cm_IsPessimisticLock = False, cm_IsAssertExists = False, cm_IsAssertNotExist = False\<rparr>],
      bm_isPrimary = True\<rparr>"


subsection \<open>The minimum commit timestamp of a prewrite request\<close>

lemma req_MinCommitTs_build:
  "req_MinCommitTs (buildPrewriteRequest c batch txnSize) =
     (if c_forUpdateTS c > 0 \<and> c_forUpdateTS c \<ge> c_minCommitTS c
      then c_forUpdateTS c + 1
      else if c_startTS c \<ge> c_minCommitTS c then c_startTS c + 1
      else c_minCommitTS c)"
  by (simp add: buildPrewriteRequest_def Let_def)

lemma unat_succ: "(x::u64) \<noteq> - 1 \<Longrightarrow> unat (x + 1) = unat x + 1"
proof -
  assume "x \<noteq> - 1"
  then have "1 + x \<noteq> 0" by (simp add: eq_neg_iff_add_eq_0 add.commute)
  from unatSuc[OF this] show ?thesis by (simp add: add.commute)
qed

lemma max_word_top: "max (x::u64) y \<noteq> - 1 \<Longrightarrow> x \<noteq> - 1 \<and> y \<noteq> - 1"
proof -
  have a: "max (- 1) y = (- 1 :: u64)" by (rule max_absorb1) simp
  have b: "max x (- 1) = (- 1 :: u64)" by (rule max_absorb2) simp
  assume "max x y \<noteq> - 1"
  with a b show ?thesis by auto
qed

lemma unat_max: "unat (max (a::u64) b) = max (unat a) (unat b)"
  by (simp add: max_def word_le_nat_alt)


text \<open>
  C6 (as amended). When the committer's \<open>for_update_ts\<close> is unset (0) or not below its
  \<open>start_ts\<close>, and neither timestamp is the largest 64-bit value, the request built
  for a batch carries \<open>MinCommitTs = max(c.minCommitTS, max(start_ts, for_update_ts) + 1)\<close>,
  both as numbers and in 64-bit arithmetic.
\<close>

theorem buildPrewriteRequest_MinCommitTs:
  assumes "c_forUpdateTS c = 0 \<or> c_startTS c \<le> c_forUpdateTS c"
    and "max (c_startTS c) (c_forUpdateTS c) \<noteq> - 1"
  shows "unat (req_MinCommitTs (buildPrewriteRequest c batch txnSize)) =
           max (unat (c_minCommitTS c)) (max (unat (c_startTS c)) (unat (c_forUpdateTS c)) + 1)
       \<and> req_MinCommitTs (buildPrewriteRequest c batch txnSize) =
           max (c_minCommitTS c) (max (c_startTS c) (c_forUpdateTS c) + 1)"
proof -
  have s: "c_startTS c \<noteq> - 1" and f: "c_forUpdateTS c \<noteq> - 1"
    using max_word_top[OF assms(2)] by simp_all
  have c1: "(0 < c_forUpdateTS c) = (0 < unat (c_forUpdateTS c))"
    by (simp add: word_less_nat_alt)
  have c2: "(c_minCommitTS c \<le> c_forUpdateTS c) = (unat (c_minCommitTS c) \<le> unat (c_forUpdateTS c))"
    by (simp add: word_le_nat_alt)
  have c3: "(c_minCommitTS c \<le> c_startTS c) = (unat (c_minCommitTS c) \<le> unat (c_startTS c))"
    by (simp add: word_le_nat_alt)
  have a: "unat (c_forUpdateTS c) = 0 \<or> unat (c_startTS c) \<le> unat (c_forUpdateTS c)"
    using assms(1) by (auto simp: word_le_nat_alt)
  have n: "unat (req_MinCommitTs (buildPrewriteRequest c batch txnSize)) =
           max (unat (c_minCommitTS c)) (max (unat (c_startTS c)) (unat (c_forUpdateTS c)) + 1)"
    unfolding req_MinCommitTs_build c1 c2 c3
    using a by (simp add: unat_succ[OF s] unat_succ[OF f]) arith
  have "unat (max (c_minCommitTS c) (max (c_startTS c) (c_forUpdateTS c) + 1)) =
           max (unat (c_minCommitTS c)) (max (unat (c_startTS c)) (unat (c_forUpdateTS c)) + 1)"
    by (simp only: unat_max unat_succ[OF assms(2)])
  with n show ?thesis by (simp add: word_unat_eq_iff)
qed

theorem buildPrewriteRequest_MinCommitTs_witness:
  "(c_forUpdateTS (committer0\<lparr>c_forUpdateTS := 20, c_minCommitTS := 15\<rparr>) = 0
      \<or> c_startTS (committer0\<lparr>c_forUpdateTS := 20, c_minCommitTS := 15\<rparr>)
          \<le> c_forUpdateTS (committer0\<lparr>c_forUpdateTS := 20, c_minCommitTS := 15\<rparr>))
   \<and> req_MinCommitTs (buildPrewriteRequest (committer0\<lparr>c_forUpdateTS := 20, c_minCommitTS := 15\<rparr>)
         \<lparr>bm_mutations = [], bm_isPrimary = True\<rparr> 0) = 21"
  using buildPrewriteRequest_MinCommitTs[of "committer0\<lparr>c_forUpdateTS := 20, c_minCommitTS := 15\<rparr>"
           "\<lparr>bm_mutations = [], bm_isPrimary = True\<rparr>" 0]
  by (simp add: committer0_def)


text \<open>
  The claim as stated fails for a committer with \<open>0 < for_update_ts < start_ts\<close>: with
  \<open>minCommitTS = 0\<close>, \<open>start_ts = 10\<close> and \<open>for_update_ts = 5\<close> the first branch of the
  chain applies and the request carries 6, while the maximum is 11.
\<close>

theorem buildPrewriteRequest_MinCommitTs_counterexample:
  "req_MinCommitTs (buildPrewriteRequest (committer0\<lparr>c_forUpdateTS := 5\<rparr>)
       \<lparr>bm_mutations = [], bm_isPrimary = True\<rparr> 0) = 6
   \<and> max (c_minCommitTS (committer0\<lparr>c_forUpdateTS := 5\<rparr>))
         (max (c_startTS (committer0\<lparr>c_forUpdateTS := 5\<rparr>))
              (c_forUpdateTS (committer0\<lparr>c_forUpdateTS := 5\<rparr>)) + 1) = 11"
  by (simp add: req_MinCommitTs_build committer0_def)



subsection \<open>The response to a 1PC prewrite\<close>

lemma req_TryOnePc_build:
  "req_TryOnePc (buildPrewriteRequest c batch txnSize) = c_useOnePC c"
  by (simp add: buildPrewriteRequest_def Let_def)


text \<open>
  C5 (as amended). For a response without key errors (and without region error) to a
  request that set \<open>try_1pc\<close>: if \<open>one_pc_commit_ts\<close> is 0 and the response's
  \<open>min_commit_ts\<close> is 0, the committer clears its 1PC and async-commit flags and the batch
  returns without error; if \<open>one_pc_commit_ts\<close> is 0 and \<open>min_commit_ts\<close> is not, the
  batch returns an error and the flags stay; if \<open>one_pc_commit_ts\<close> is non-zero and no
  1PC commit timestamp was recorded before, it is recorded and the batch returns without
  error; if one was recorded before, the process stops.  For a request that did not set
  \<open>try_1pc\<close>, a non-zero \<open>one_pc_commit_ts\<close> stops the process.
\<close>

theorem handleSingleBatch_onePC:
  assumes "resp_Errors resp = []"
  shows "(req_TryOnePc (buildPrewriteRequest c batch txnSize) \<longrightarrow>
           (resp_OnePcCommitTs resp = 0 \<and> resp_MinCommitTs resp = 0 \<longrightarrow>
              fst (handlePrewriteResponse T c batch resp) = Returned None
              \<and> \<not> c_useOnePC (snd (handlePrewriteResponse T c batch resp))
              \<and> \<not> c_useAsyncCommit (snd (handlePrewriteResponse T c batch resp)))
         \<and> (resp_OnePcCommitTs resp = 0 \<and> resp_MinCommitTs resp \<noteq> 0 \<longrightarrow>
              fst (handlePrewriteResponse T c batch resp)
                = Returned (Some ''MinCommitTs must be 0 when 1pc falls back to 2pc'')
              \<and> c_useOnePC (snd (handlePrewriteResponse T c batch resp))
              \<and> c_useAsyncCommit (snd (handlePrewriteResponse T c batch resp)) = c_useAsyncCommit c)
         \<and> (resp_OnePcCommitTs resp \<noteq> 0 \<and> c_onePCCommitTS c = 0 \<longrightarrow>
              fst (handlePrewriteResponse T c batch resp) = Returned None
              \<and> c_onePCCommitTS (snd (handlePrewriteResponse T c batch resp))
                  = resp_OnePcCommitTs resp
              \<and> c_useOnePC (snd (handlePrewriteResponse T c batch resp)))
         \<and> (resp_OnePcCommitTs resp \<noteq> 0 \<and> c_onePCCommitTS c \<noteq> 0 \<longrightarrow>
              fst (handlePrewriteResponse T c batch resp) = Fatal ''one pc happened multiple times''))
       \<and> (\<not> req_TryOnePc (buildPrewriteRequest c batch txnSize)
            \<and> resp_OnePcCommitTs resp \<noteq> 0 \<longrightarrow>
              fst (handlePrewriteResponse T c batch resp)
                = Fatal ''tikv committed a non-1pc transaction with 1pc protocol'')"
  using assms
  by (simp add: req_TryOnePc_build handlePrewriteResponse_def onPrewriteResponse_def
       deferred_def Let_def)

theorem handleSingleBatch_onePC_witness:
  "resp_Errors \<lparr>resp_Errors = [], resp_MinCommitTs = 0, resp_OnePcCommitTs = 42\<rparr> = []
   \<and> req_TryOnePc (buildPrewriteRequest committer1pc batch0 1)
   \<and> fst (handlePrewriteResponse 100 committer1pc batch0
            \<lparr>resp_Errors = [], resp_MinCommitTs = 0, resp_OnePcCommitTs = 42\<rparr>) = Returned None
   \<and> c_onePCCommitTS (snd (handlePrewriteResponse 100 committer1pc batch0
            \<lparr>resp_Errors = [], resp_MinCommitTs = 0, resp_OnePcCommitTs = 42\<rparr>)) = 42"
  using handleSingleBatch_onePC[of "\<lparr>resp_Errors = [], resp_MinCommitTs = 0, resp_OnePcCommitTs = 42\<rparr>"
          committer1pc batch0 1 100]
  by (simp add: committer1pc_def committer0_def req_TryOnePc_build)


text \<open>
  The claim as stated fails when the response to a 1PC request has
  \<open>one_pc_commit_ts = 0\<close> but a non-zero \<open>min_commit_ts\<close>: the batch fails and both
  flags are still set.
\<close>

theorem handleSingleBatch_onePC_counterexample:
  "req_TryOnePc (buildPrewriteRequest committer1pc batch0 1)
   \<and> resp_Errors \<lparr>resp_Errors = [], resp_MinCommitTs = 5, resp_OnePcCommitTs = 0\<rparr> = []
   \<and> resp_OnePcCommitTs \<lparr>resp_Errors = [], resp_MinCommitTs = 5, resp_OnePcCommitTs = 0\<rparr> = 0
   \<and> fst (handlePrewriteResponse 100 committer1pc batch0
            \<lparr>resp_Errors = [], resp_MinCommitTs = 5, resp_OnePcCommitTs = 0\<rparr>)
        = Returned (Some ''MinCommitTs must be 0 when 1pc falls back to 2pc'')
   \<and> c_useOnePC (snd (handlePrewriteResponse 100 committer1pc batch0
            \<lparr>resp_Errors = [], resp_MinCommitTs = 5, resp_OnePcCommitTs = 0\<rparr>))
   \<and> c_useAsyncCommit (snd (handlePrewriteResponse 100 committer1pc batch0
            \<lparr>resp_Errors = [], resp_MinCommitTs = 5, resp_OnePcCommitTs = 0\<rparr>))"
  by (simp add: committer1pc_def committer0_def req_TryOnePc_build handlePrewriteResponse_def
       onPrewriteResponse_def deferred_def Let_def)

section \<open>The region cache (region\_cache.go): locating a key\<close>

text \<open>
  \<^verbatim>\<open>metapb.Region\<close> with its epoch, and \<^verbatim>\<open>pd.Region\<close> as the PD client returns it.
\<close>

record Peer =
  p_Id :: u64
  p_StoreId :: u64

record RegionMeta =
  rm_Id :: u64
  rm_StartKey :: bytes
  rm_EndKey :: bytes
  rm_ConfVer :: u64
  rm_Version :: u64
  rm_Peers :: "Peer list"

record pdRegion =
  pr_Meta :: "RegionMeta option"
  pr_DownPeers :: "Peer list"

datatype InvalidReason = Ok | NoLeader | RegionNotFound | EpochNotMatch | StoreNotFound | Other

definition updated :: int where "updated = 0"
definition needSync :: int where "needSync = 1"
definition invalidatedLastAccessTime :: int where "invalidatedLastAccessTime = - 1"

text \<open>
  A cached \<^verbatim>\<open>Region\<close>.  Its \<^verbatim>\<open>store\<close> pointer (the replica selection state) plays no
  part in locating a key and is left out.
\<close>

record Region =
  r_meta :: RegionMeta
  r_syncFlag :: int
  r_lastAccess :: int
  r_invalidReason :: InvalidReason

record RegionVerID =
  vid_id :: u64
  vid_confVer :: u64
  vid_ver :: u64

text \<open>
  A \<^verbatim>\<open>KeyLocation\<close>, without the bucket information that is read from the replica
  selection state.
\<close>

record KeyLocation =
  kl_Region :: RegionVerID
  kl_StartKey :: bytes
  kl_EndKey :: bytes

text \<open>
  The cache holds pointers to \<^verbatim>\<open>Region\<close> objects: the same object is reached from
  the sorted index and from the map by version.  \<open>rc_heap\<close> gives the object at an
  address and \<open>rc_next\<close> is the next unused address.  \<open>rc_sorted\<close> is the B-tree
  \<^verbatim>\<open>c.mu.sorted\<close>, as the list of its items in ascending order of their keys; the key
  of an item is the start key of its region, which never changes.
\<close>

record RegionCache =
  rc_heap :: "nat \<Rightarrow> Region"
  rc_next :: nat
  rc_sorted :: "nat list"
  rc_regions :: "(RegionVerID \<times> nat) list"
  rc_latestVersions :: "(u64 \<times> RegionVerID) list"

text \<open>
  What \<^verbatim>\<open>LocateKey\<close> takes from outside the cache: the PD client (the answer of the
  \<open>n\<close>-th call for a key; PD is an external service), the address resolution of a
  store (\<^verbatim>\<open>Store.initResolve\<close>: an error, or the address, empty for a tombstone store),
  the clock \<^verbatim>\<open>time.Now().Unix()\<close> and the variable \<^verbatim>\<open>regionCacheTTLSec\<close>.
\<close>

datatype pd_error = PDDecodeError | PDError

record environment =
  env_GetRegion :: "nat \<Rightarrow> bytes \<Rightarrow> pd_error + pdRegion option"
  env_GetPrevRegion :: "nat \<Rightarrow> bytes \<Rightarrow> pd_error + pdRegion option"
  env_initResolve :: "u64 \<Rightarrow> string + string"
  env_now :: int
  env_regionCacheTTLSec :: int

text \<open>
  Modelled from the spec: the \<^verbatim>\<open>retry.Backoffer\<close> is not among the sources.  By the
  spec a backoff sleeps within a budget and fails once the budget is used up;
  \<open>st_backoff\<close> is the number of backoffs left.  \<open>st_pdCalls\<close> counts the calls of the
  PD client.
\<close>

record state =
  st_cache :: RegionCache
  st_backoff :: nat
  st_pdCalls :: nat

definition StartKey :: "Region \<Rightarrow> bytes" where
  "StartKey r = rm_StartKey (r_meta r)"

definition EndKey :: "Region \<Rightarrow> bytes" where
  "EndKey r = rm_EndKey (r_meta r)"

definition VerID :: "Region \<Rightarrow> RegionVerID" where
  "VerID r = \<lparr>vid_id = rm_Id (r_meta r), vid_confVer = rm_ConfVer (r_meta r),
              vid_ver = rm_Version (r_meta r)\<rparr>"

text \<open>\<^verbatim>\<open>contains\<close>: \<open>startKey \<le> key < endKey\<close>, an empty \<open>endKey\<close> being the maximum.\<close>

definition contains :: "bytes \<Rightarrow> bytes \<Rightarrow> bytes \<Rightarrow> bool" where
  "contains startKey endKey key = (startKey \<le> key \<and> (key < endKey \<or> length endKey = 0))"

definition Contains :: "Region \<Rightarrow> bytes \<Rightarrow> bool" where
  "Contains r key = contains (rm_StartKey (r_meta r)) (rm_EndKey (r_meta r)) key"

definition ContainsByEnd :: "Region \<Rightarrow> bytes \<Rightarrow> bool" where
  "ContainsByEnd r key =
     (rm_StartKey (r_meta r) < key
      \<and> (key \<le> rm_EndKey (r_meta r) \<or> length (rm_EndKey (r_meta r)) = 0))"

text \<open>
  \<^verbatim>\<open>checkRegionCacheTTL\<close>: whether the region was accessed within the TTL; if so its
  last access time becomes \<open>ts\<close>.  (The failpoint is disabled.)
\<close>

definition checkRegionCacheTTL :: "int \<Rightarrow> Region \<Rightarrow> int \<Rightarrow> bool \<times> Region" where
  "checkRegionCacheTTL ttlSec r ts =
     (let lastAccess = r_lastAccess r in
      if ts - lastAccess > ttlSec then (False, r)
      else (True, r\<lparr>r_lastAccess := ts\<rparr>))"

definition invalidate :: "Region \<Rightarrow> InvalidReason \<Rightarrow> Region" where
  "invalidate r reason = r\<lparr>r_invalidReason := reason, r_lastAccess := invalidatedLastAccessTime\<rparr>"

definition checkNeedReloadAndMarkUpdated :: "Region \<Rightarrow> bool \<times> Region" where
  "checkNeedReloadAndMarkUpdated r =
     (let oldValue = r_syncFlag r in
      if oldValue = updated then (False, r)
      else (True, r\<lparr>r_syncFlag := updated\<rparr>))"

text \<open>
  The callback of \<^verbatim>\<open>DescendLessOrEqual\<close> in \<^verbatim>\<open>searchCachedRegion\<close>, run over the items
  in descending order: the address left in \<^verbatim>\<open>r\<close> when the iteration stops, and the heap.
\<close>

fun descend :: "int \<Rightarrow> bytes \<Rightarrow> bool \<Rightarrow> int \<Rightarrow> (nat \<Rightarrow> Region) \<Rightarrow> nat list
                  \<Rightarrow> nat option \<times> (nat \<Rightarrow> Region)" where
  "descend ttlSec key isEndKey ts heap [] = (None, heap)"
| "descend ttlSec key isEndKey ts heap (a # items) =
     (let r = heap a in
      if isEndKey \<and> StartKey r = key then descend ttlSec key isEndKey ts heap items
      else (case checkRegionCacheTTL ttlSec r ts of
              (False, r') \<Rightarrow> descend ttlSec key isEndKey ts heap items
            | (True, r') \<Rightarrow> (Some a, heap(a := r'))))"

text \<open>The items of the B-tree whose key is at most \<open>key\<close>, greatest first.\<close>

definition DescendLessOrEqual :: "RegionCache \<Rightarrow> bytes \<Rightarrow> nat list" where
  "DescendLessOrEqual c key = rev (filter (\<lambda>a. StartKey (rc_heap c a) \<le> key) (rc_sorted c))"

definition searchCachedRegion ::
  "environment \<Rightarrow> RegionCache \<Rightarrow> bytes \<Rightarrow> bool \<Rightarrow> nat option \<times> RegionCache" where
  "searchCachedRegion env c key isEndKey =
     (let ts = env_now env;
          (r, heap) = descend (env_regionCacheTTLSec env) key isEndKey ts (rc_heap c)
                        (DescendLessOrEqual c key);
          c' = c\<lparr>rc_heap := heap\<rparr>
      in case r of
           Some a \<Rightarrow>
             if (\<not> isEndKey \<and> Contains (heap a) key) \<or> (isEndKey \<and> ContainsByEnd (heap a) key)
             then (Some a, c') else (None, c')
         | None \<Rightarrow> (None, c'))"

definition isSamePeerId :: "Peer \<Rightarrow> Peer \<Rightarrow> bool" where
  "isSamePeerId p downPeer = (p_Id p = p_Id downPeer \<and> p_StoreId p = p_StoreId downPeer)"

definition filterUnavailablePeers :: "RegionMeta \<Rightarrow> Peer list \<Rightarrow> RegionMeta" where
  "filterUnavailablePeers meta downPeers =
     (if length downPeers = 0 then meta
      else meta\<lparr>rm_Peers := filter (\<lambda>p. \<not> list_ex (isSamePeerId p) downPeers) (rm_Peers meta)\<rparr>)"

text \<open>
  The loop of \<^verbatim>\<open>newRegion\<close> over the peers: an error of the address resolution ends
  it; a peer on a tombstone store (empty address) is dropped.
\<close>

fun availablePeers :: "(u64 \<Rightarrow> string + string) \<Rightarrow> Peer list \<Rightarrow> string + Peer list" where
  "availablePeers resolve [] = Inr []"
| "availablePeers resolve (p # ps) =
     (case resolve (p_StoreId p) of
        Inl err \<Rightarrow> Inl err
      | Inr addr \<Rightarrow>
          (case availablePeers resolve ps of
             Inl err \<Rightarrow> Inl err
           | Inr rest \<Rightarrow> if addr = [] then Inr rest else Inr (p # rest)))"

definition newRegion :: "environment \<Rightarrow> RegionMeta \<Rightarrow> string + Region" where
  "newRegion env meta =
     (case availablePeers (env_initResolve env) (rm_Peers meta) of
        Inl err \<Rightarrow> Inl err
      | Inr peers \<Rightarrow>
          if length peers = 0 then Inl ''no available peers''
          else Inr \<lparr>r_meta = meta\<lparr>rm_Peers := peers\<rparr>, r_syncFlag = updated,
                     r_lastAccess = env_now env, r_invalidReason = Ok\<rparr>)"

text \<open>
  The loop of \<^verbatim>\<open>loadRegion\<close>: the backoffs left, the number of PD calls made, and the
  variables \<^verbatim>\<open>searchPrev\<close> and \<^verbatim>\<open>backoffErr\<close>.
\<close>

function loadRegionLoop ::
  "environment \<Rightarrow> nat \<Rightarrow> nat \<Rightarrow> bytes \<Rightarrow> bool \<Rightarrow> bool \<Rightarrow> string option
     \<Rightarrow> (string + Region) \<times> nat \<times> nat" where
  "loadRegionLoop env bo n key isEndKey searchPrev backoffErr =
     (if backoffErr \<noteq> None \<and> bo = 0 then (Inl ''backoff budget exceeded'', bo, n)
      else
        (let bo' = (if backoffErr \<noteq> None then bo - 1 else bo);
             answer = (if searchPrev then env_GetPrevRegion env n key
                       else env_GetRegion env n key)
         in case answer of
              Inl PDDecodeError \<Rightarrow> (Inl ''failed to decode region range key'', bo', Suc n)
            | Inl PDError \<Rightarrow>
                loadRegionLoop env bo' (Suc n) key isEndKey searchPrev
                  (Some ''loadRegion from PD failed'')
            | Inr None \<Rightarrow>
                loadRegionLoop env bo' (Suc n) key isEndKey searchPrev
                  (Some ''region not found for key'')
            | Inr (Some reg) \<Rightarrow>
                (case pr_Meta reg of
                   None \<Rightarrow>
                     loadRegionLoop env bo' (Suc n) key isEndKey searchPrev
                       (Some ''region not found for key'')
                 | Some meta0 \<Rightarrow>
                     (let meta = filterUnavailablePeers meta0 (pr_DownPeers reg) in
                      if length (rm_Peers meta) = 0
                      then (Inl ''receive Region with no available peer'', bo', Suc n)
                      else if isEndKey \<and> \<not> searchPrev \<and> rm_StartKey meta = key
                              \<and> length (rm_StartKey meta) \<noteq> 0
                      then loadRegionLoop env bo' (Suc n) key isEndKey True backoffErr
                      else (newRegion env meta, bo', Suc n)))))"
  by pat_completeness auto
termination
  by (relation "measure (\<lambda>(env, bo, n, key, isEndKey, searchPrev, backoffErr).
         3 * bo + (if backoffErr = None then 2 else 0) + (if searchPrev then 0 else 1))")
     (auto split: if_splits)

declare loadRegionLoop.simps [simp del]

definition loadRegion ::
  "environment \<Rightarrow> state \<Rightarrow> bytes \<Rightarrow> bool \<Rightarrow> (string + Region) \<times> state" where
  "loadRegion env st key isEndKey =
     (case loadRegionLoop env (st_backoff st) (st_pdCalls st) key isEndKey False None of
        (res, bo, n) \<Rightarrow> (res, st\<lparr>st_backoff := bo, st_pdCalls := n\<rparr>))"

text \<open>
  \<^verbatim>\<open>ReplaceOrInsert\<close> on the B-tree: the item with the same key is replaced and
  returned, otherwise the new item is inserted at its place.
\<close>

fun ReplaceOrInsert :: "(nat \<Rightarrow> Region) \<Rightarrow> nat \<Rightarrow> nat list \<Rightarrow> nat option \<times> nat list" where
  "ReplaceOrInsert heap a [] = (None, [a])"
| "ReplaceOrInsert heap a (b # items) =
     (if StartKey (heap a) < StartKey (heap b) then (None, a # b # items)
      else if StartKey (heap b) < StartKey (heap a)
      then (case ReplaceOrInsert heap a items of (old, items') \<Rightarrow> (old, b # items'))
      else (Some b, a # items))"

definition removeVersionFromCache :: "RegionCache \<Rightarrow> RegionVerID \<Rightarrow> u64 \<Rightarrow> RegionCache" where
  "removeVersionFromCache c oldVer regionID =
     (let regions = filter (\<lambda>e. fst e \<noteq> oldVer) (rc_regions c);
          latest = (case map_of (rc_latestVersions c) regionID of
                      Some ver \<Rightarrow> if ver = oldVer
                                  then filter (\<lambda>e. fst e \<noteq> regionID) (rc_latestVersions c)
                                  else rc_latestVersions c
                    | None \<Rightarrow> rc_latestVersions c)
      in c\<lparr>rc_regions := regions, rc_latestVersions := latest\<rparr>)"

text \<open>
  \<^verbatim>\<open>insertRegionToCache\<close>: the new \<^verbatim>\<open>Region\<close> object is put at a fresh address; the
  address is returned with the cache.  The adjustments of the replica selection state
  of the new region are left out with that state.
\<close>

definition insertRegionToCache :: "RegionCache \<Rightarrow> Region \<Rightarrow> nat \<times> RegionCache" where
  "insertRegionToCache c cachedRegion =
     (let a = rc_next c;
          c1 = c\<lparr>rc_heap := (rc_heap c)(a := cachedRegion), rc_next := Suc a\<rparr>;
          (old, sorted) = ReplaceOrInsert (rc_heap c1) a (rc_sorted c1);
          c2 = c1\<lparr>rc_sorted := sorted\<rparr>;
          c3 = (case old of
                  Some b \<Rightarrow>
                    (let oldRegion = rc_heap c2 b;
                         c' = c2\<lparr>rc_heap := (rc_heap c2)(b := invalidate oldRegion Other)\<rparr>
                     in removeVersionFromCache c' (VerID oldRegion) (vid_id (VerID cachedRegion)))
                | None \<Rightarrow> c2);
          newVer = VerID cachedRegion;
          c4 = c3\<lparr>rc_regions := (newVer, a) # filter (\<lambda>e. fst e \<noteq> newVer) (rc_regions c3)\<rparr>;
          c5 = (case map_of (rc_latestVersions c4) (vid_id newVer) of
                  Some latest \<Rightarrow>
                    if vid_ver latest < vid_ver newVer \<or> vid_confVer latest < vid_confVer newVer
                    then c4\<lparr>rc_latestVersions :=
                              (vid_id newVer, newVer)
                                # filter (\<lambda>e. fst e \<noteq> vid_id newVer) (rc_latestVersions c4)\<rparr>
                    else c4
                | None \<Rightarrow>
                    c4\<lparr>rc_latestVersions := (vid_id newVer, newVer) # rc_latestVersions c4\<rparr>)
      in (a, c5))"

text \<open>\<^verbatim>\<open>findRegionByKey\<close>: an error, or the address of the region.\<close>

definition findRegionByKey ::
  "environment \<Rightarrow> state \<Rightarrow> bytes \<Rightarrow> bool \<Rightarrow> (string + nat) \<times> state" where
  "findRegionByKey env st key isEndKey =
     (case searchCachedRegion env (st_cache st) key isEndKey of
        (None, c) \<Rightarrow>
          (case loadRegion env (st\<lparr>st_cache := c\<rparr>) key isEndKey of
             (Inl err, st') \<Rightarrow> (Inl err, st')
           | (Inr lr, st') \<Rightarrow>
               (case insertRegionToCache (st_cache st') lr of
                  (a, c') \<Rightarrow> (Inr a, st'\<lparr>st_cache := c'\<rparr>)))
      | (Some a, c) \<Rightarrow>
          (case checkNeedReloadAndMarkUpdated (rc_heap c a) of
             (False, r) \<Rightarrow> (Inr a, st\<lparr>st_cache := c\<rparr>)
           | (True, r) \<Rightarrow>
               (let c1 = c\<lparr>rc_heap := (rc_heap c)(a := r)\<rparr> in
                case loadRegion env (st\<lparr>st_cache := c1\<rparr>) key isEndKey of
                  (Inl err, st') \<Rightarrow> (Inr a, st')
                | (Inr lr, st') \<Rightarrow>
                    (case insertRegionToCache (st_cache st') lr of
                       (b, c') \<Rightarrow> (Inr b, st'\<lparr>st_cache := c'\<rparr>)))))"

text \<open>\<^verbatim>\<open>LocateKey\<close>.\<close>

definition LocateKey ::
  "environment \<Rightarrow> state \<Rightarrow> bytes \<Rightarrow> (string + KeyLocation) \<times> state" where
  "LocateKey env st key =
     (case findRegionByKey env st key False of
        (Inl err, st') \<Rightarrow> (Inl err, st')
      | (Inr a, st') \<Rightarrow>
          (let r = rc_heap (st_cache st') a in
           (Inr \<lparr>kl_Region = VerID r, kl_StartKey = StartKey r, kl_EndKey = EndKey r\<rparr>, st')))"


subsection \<open>An example cluster\<close>

text \<open>
  Two regions split at the key \<open>m\<close>.  The cache knows the lower one; PD knows both.
\<close>

definition exPeer :: Peer where
  "exPeer = \<lparr>p_Id = 1, p_StoreId = 1\<rparr>"

definition exLower :: RegionMeta where
  "exLower = \<lparr>rm_Id = 2, rm_StartKey = [], rm_EndKey = [0x6d], rm_ConfVer = 1,
              rm_Version = 1, rm_Peers = [exPeer]\<rparr>"

definition exUpper :: RegionMeta where
  "exUpper = \<lparr>rm_Id = 3, rm_StartKey = [0x6d], rm_EndKey = [], rm_ConfVer = 1,
              rm_Version = 1, rm_Peers = [exPeer]\<rparr>"

definition exEnv :: environment where
  "exEnv = \<lparr>env_GetRegion = (\<lambda>n k. if k < [0x6d]
                                     then Inr (Some \<lparr>pr_Meta = Some exLower, pr_DownPeers = []\<rparr>)
                                     else Inr (Some \<lparr>pr_Meta = Some exUpper, pr_DownPeers = []\<rparr>)),
            env_GetPrevRegion = (\<lambda>n k. Inl PDError),
            env_initResolve = (\<lambda>storeID. Inr ''store-1''),
            env_now = 1000,
            env_regionCacheTTLSec = 600\<rparr>"

definition exCached :: Region where
  "exCached = \<lparr>r_meta = exLower, r_syncFlag = updated, r_lastAccess = 900, r_invalidReason = Ok\<rparr>"

definition exState :: state where
  "exState = \<lparr>st_cache = \<lparr>rc_heap = (\<lambda>a. exCached), rc_next = 1, rc_sorted = [0],
                            rc_regions = [(VerID exCached, 0)],
                            rc_latestVersions = [(2, VerID exCached)]\<rparr>,
              st_backoff = 3, st_pdCalls = 0\<rparr>"

text \<open>A PD that answers every lookup with the lower region.\<close>

definition exStalePD :: environment where
  "exStalePD = exEnv\<lparr>env_GetRegion :=
                 (\<lambda>n k. Inr (Some \<lparr>pr_Meta = Some exLower, pr_DownPeers = []\<rparr>))\<rparr>"

subsection \<open>Locating a key\<close>













lemma LocateKey_cached:
  "fst (LocateKey exEnv exState [0x62])
     = Inr \<lparr>kl_Region = \<lparr>vid_id = 2, vid_confVer = 1, vid_ver = 1\<rparr>,
            kl_StartKey = [], kl_EndKey = [0x6d]\<rparr>"
  by (simp add: LocateKey_def findRegionByKey_def searchCachedRegion_def DescendLessOrEqual_def
        checkRegionCacheTTL_def checkNeedReloadAndMarkUpdated_def Contains_def contains_def
        StartKey_def EndKey_def VerID_def exEnv_def exState_def exCached_def exLower_def
        updated_def Let_def)



text \<open>
  \<^verbatim>\<open>loadRegion\<close> does not compare the range of the region PD returns with the key:
  with a PD that breaks its contract, the location returned does not hold the key.
\<close>

lemma LocateKey_stale_PD:
  "fst (LocateKey exStalePD exState [0x78])
     = Inr \<lparr>kl_Region = \<lparr>vid_id = 2, vid_confVer = 1, vid_ver = 1\<rparr>,
            kl_StartKey = [], kl_EndKey = [0x6d]\<rparr>"
  by (simp add: LocateKey_def findRegionByKey_def searchCachedRegion_def DescendLessOrEqual_def
        checkRegionCacheTTL_def checkNeedReloadAndMarkUpdated_def Contains_def contains_def
        loadRegion_def loadRegionLoop.simps newRegion_def filterUnavailablePeers_def
        insertRegionToCache_def removeVersionFromCache_def invalidate_def
        StartKey_def EndKey_def VerID_def exStalePD_def exEnv_def exState_def exCached_def
        exLower_def exPeer_def updated_def invalidatedLastAccessTime_def Let_def)

end
